theory Spec2Isabelle
  imports Main "HOL-Library.Sublist" "HOL-Library.Code_Target_Nat"
begin

text \<open>
  A browser extension that reads the text of the page in view, asks a text-generation
  service for a credibility assessment, and keeps a history of the last analyses. This
  theory embeds the pure parts of \<open>service-worker.js\<close> and \<open>content-script.js\<close>: the
  recovery of a JSON record from the reply text, the handling of the upstream envelope,
  the choice of the article text, and the bounded history log. The browser, the network
  and the store are parameters: each function takes what the source reads from them.
\<close>

section \<open>Strings\<close>

text \<open>
  A JavaScript string is a sequence of UTF-16 code units, and \<open>length\<close>, \<open>substring\<close>,
  \<open>trim\<close> and the regular expressions of the source all work on code units. A string is
  therefore modelled as a list of code units, each a natural number (below 65536 in
  JavaScript; no function below depends on that bound). \<open>js ''abc''\<close> is the string with
  the code units of an ASCII literal.
\<close>

type_synonym js_string = "nat list"

abbreviation js :: "string \<Rightarrow> js_string" where
  "js s \<equiv> map of_char s"

text \<open>
  The class \<open>\s\<close> of a JavaScript regular expression, which is also what
  \<open>String.prototype.trim\<close> removes: the white space and line terminator code points
  TAB, LF, VT, FF, CR, SP, NBSP, U+1680, U+2000..U+200A, U+2028, U+2029, U+202F, U+205F,
  U+3000 and U+FEFF.
\<close>

definition isWhiteSpace :: "nat \<Rightarrow> bool" where
  "isWhiteSpace c =
     (c = 9 \<or> c = 10 \<or> c = 11 \<or> c = 12 \<or> c = 13 \<or> c = 32 \<or> c = 160 \<or> c = 5760
      \<or> (8192 \<le> c \<and> c \<le> 8202) \<or> c = 8232 \<or> c = 8233 \<or> c = 8239 \<or> c = 8287
      \<or> c = 12288 \<or> c = 65279)"

definition trim :: "js_string \<Rightarrow> js_string" where
  "trim s = rev (dropWhile isWhiteSpace (rev (dropWhile isWhiteSpace s)))"

section \<open>JSON values and \<open>JSON.parse\<close>\<close>

text \<open>
  The values \<open>JSON.parse\<close> can return. A number literal is kept exactly, as the pair
  \<open>(m, e)\<close> standing for \<open>m * 10 ^ e\<close>; its rounding to a double is not modelled, except
  for the one place where the source's control flow depends on it (whether the number is
  zero, see \<open>isZero\<close>). An object is the list of its properties in insertion order, each
  key once.
\<close>

datatype json =
    JNull
  | JBool bool
  | JNumber int int
  | JString js_string
  | JArray "json list"
  | JObject "(js_string \<times> json) list"

text \<open>Assignment \<open>obj[k] = v\<close>: an existing property keeps its place, a new one is added last.\<close>

fun setProperty :: "js_string \<Rightarrow> json \<Rightarrow> (js_string \<times> json) list \<Rightarrow> (js_string \<times> json) list" where
  "setProperty k v [] = [(k, v)]"
| "setProperty k v (p # ps) = (if fst p = k then (k, v) # ps else p # setProperty k v ps)"

datatype token =
    LBrace | RBrace | LBracket | RBracket | Colon | Comma
  | TString js_string
  | TNumber int int
  | TTrue | TFalse | TNull

definition isJsonSpace :: "nat \<Rightarrow> bool" where
  "isJsonSpace c = (c = 9 \<or> c = 10 \<or> c = 13 \<or> c = 32)"

definition isDigit :: "nat \<Rightarrow> bool" where
  "isDigit c = (48 \<le> c \<and> c \<le> 57)"

definition hexValue :: "nat \<Rightarrow> nat option" where
  "hexValue c =
     (if 48 \<le> c \<and> c \<le> 57 then Some (c - 48)
      else if 97 \<le> c \<and> c \<le> 102 then Some (c - 87)
      else if 65 \<le> c \<and> c \<le> 70 then Some (c - 55)
      else None)"

definition hex4 :: "nat \<Rightarrow> nat \<Rightarrow> nat \<Rightarrow> nat \<Rightarrow> nat option" where
  "hex4 a b c d =
     (case (hexValue a, hexValue b, hexValue c, hexValue d) of
        (Some w, Some x, Some y, Some z) \<Rightarrow> Some (((w * 16 + x) * 16 + y) * 16 + z)
      | _ \<Rightarrow> None)"

text \<open>The single-character escapes of a JSON string: \<open>\" \\ \/ \b \f \n \r \t\<close>.\<close>

definition escapeChar :: "nat \<Rightarrow> nat option" where
  "escapeChar e =
     (if e = 34 then Some 34 else if e = 92 then Some 92 else if e = 47 then Some 47
      else if e = 98 then Some 8 else if e = 102 then Some 12 else if e = 110 then Some 10
      else if e = 114 then Some 13 else if e = 116 then Some 9 else None)"

text \<open>
  An escape sequence, read after its backslash: the code unit it stands for and the
  number of characters it takes (one, or five for \<open>uXXXX\<close>).
\<close>

definition lexEscape :: "js_string \<Rightarrow> (nat \<times> nat) option" where
  "lexEscape cs =
     (case cs of
        [] \<Rightarrow> None
      | e # r \<Rightarrow>
          (if e = 117 then
             (if 4 \<le> length r then map_option (\<lambda>u. (u, 5)) (hex4 (r ! 0) (r ! 1) (r ! 2) (r ! 3))
              else None)
           else map_option (\<lambda>x. (x, 1)) (escapeChar e)))"

text \<open>
  \<open>lexString acc cs\<close> reads the rest of a string literal whose opening quote has been
  consumed: up to the closing quote, decoding escapes, and refusing a raw control
  character (code unit below U+0020, which is why a literal newline inside a string
  breaks \<open>JSON.parse\<close>). It returns the decoded string and the text after the literal.
\<close>

fun lexString :: "js_string \<Rightarrow> js_string \<Rightarrow> (js_string \<times> js_string) option" where
  "lexString acc [] = None"
| "lexString acc (c # cs) =
     (if c = 34 then Some (rev acc, cs)
      else if c = 92 then
        (case lexEscape cs of
           None \<Rightarrow> None
         | Some (u, n) \<Rightarrow> lexString (u # acc) (drop n cs))
      else if c < 32 then None
      else lexString (c # acc) cs)"

definition digitsValue :: "js_string \<Rightarrow> int" where
  "digitsValue ds = foldl (\<lambda>a d. 10 * a + int (d - 48)) 0 ds"

text \<open>
  A number literal: \<open>-? (0 | [1-9][0-9]*) (. [0-9]+)? ([eE] [+-]? [0-9]+)?\<close>, read in
  three parts. Each part returns what it read and the text after it.
\<close>

definition lexInt :: "js_string \<Rightarrow> (js_string \<times> js_string) option" where
  "lexInt s =
     (case s of
        [] \<Rightarrow> None
      | d # r \<Rightarrow>
          (if d = 48 then Some ([d], r)
           else if isDigit d then Some (d # takeWhile isDigit r, dropWhile isDigit r)
           else None))"

definition lexFrac :: "js_string \<Rightarrow> (js_string \<times> js_string) option" where
  "lexFrac s =
     (case s of
        [] \<Rightarrow> Some ([], s)
      | d # r \<Rightarrow>
          (if d = 46 then
             (if takeWhile isDigit r = [] then None
              else Some (takeWhile isDigit r, dropWhile isDigit r))
           else Some ([], s)))"

definition lexDigits :: "bool \<Rightarrow> js_string \<Rightarrow> (int \<times> js_string) option" where
  "lexDigits neg s =
     (if takeWhile isDigit s = [] then None
      else Some (if neg then - digitsValue (takeWhile isDigit s) else digitsValue (takeWhile isDigit s),
                 dropWhile isDigit s))"

definition lexExp :: "js_string \<Rightarrow> (int \<times> js_string) option" where
  "lexExp s =
     (case s of
        [] \<Rightarrow> Some (0, s)
      | d # r \<Rightarrow>
          (if d = 101 \<or> d = 69 then
             (case r of
                [] \<Rightarrow> None
              | g # r1 \<Rightarrow>
                  (if g = 45 then lexDigits True r1
                   else if g = 43 then lexDigits False r1
                   else lexDigits False r))
           else Some (0, s)))"

text \<open>The result is the mantissa, the decimal exponent and the text after the literal.\<close>

definition lexNumber :: "js_string \<Rightarrow> (int \<times> int \<times> js_string) option" where
  "lexNumber s =
     (let neg = (s \<noteq> [] \<and> hd s = 45) in
      case lexInt (if neg then tl s else s) of
        None \<Rightarrow> None
      | Some (ip, s2) \<Rightarrow>
          (case lexFrac s2 of
             None \<Rightarrow> None
           | Some (fp, s3) \<Rightarrow>
               (case lexExp s3 of
                  None \<Rightarrow> None
                | Some (x, s4) \<Rightarrow>
                    Some (if neg then - digitsValue (ip @ fp) else digitsValue (ip @ fp),
                          x - int (length fp), s4))))"

lemma lexString_shorter: "lexString acc cs = Some (s, rest) \<Longrightarrow> length rest < length cs"
proof (induction acc cs rule: lexString.induct)
  case (1 acc)
  then show ?case by simp
next
  case (2 acc c cs)
  show ?case
  proof (cases "c = 34")
    case True
    with 2 show ?thesis by simp
  next
    case c34: False
    show ?thesis
    proof (cases "c = 92")
      case True
      with 2 c34 obtain u n where e: "lexEscape cs = Some (u, n)"
        and r: "lexString (u # acc) (drop n cs) = Some (s, rest)"
        by (auto split: option.splits)
      from "2.IH"(1) [OF c34 True e refl r] show ?thesis by simp
    next
      case False
      with 2 c34 have "\<not> c < 32" and "lexString (c # acc) cs = Some (s, rest)"
        by (auto split: if_splits)
      with "2.IH"(2) [OF c34 False] show ?thesis by simp
    qed
  qed
qed

lemma lexInt_shorter: "lexInt s = Some (ip, r) \<Longrightarrow> length r < length s"
  by (cases s) (auto simp: lexInt_def less_Suc_eq_le length_dropWhile_le split: if_splits)

lemma lexFrac_shorter: "lexFrac s = Some (fp, r) \<Longrightarrow> length r \<le> length s"
  by (cases s) (auto simp: lexFrac_def le_SucI length_dropWhile_le split: if_splits)

lemma lexDigits_shorter: "lexDigits b s = Some (x, r) \<Longrightarrow> length r \<le> length s"
  by (auto simp: lexDigits_def length_dropWhile_le split: if_splits)

lemma lexExp_shorter: "lexExp s = Some (x, r) \<Longrightarrow> length r \<le> length s"
proof (cases s)
  case Nil
  assume "lexExp s = Some (x, r)"
  with Nil show ?thesis by (simp add: lexExp_def)
next
  case (Cons d t)
  assume a: "lexExp s = Some (x, r)"
  show ?thesis
  proof (cases "d = 101 \<or> d = 69")
    case False
    with a Cons show ?thesis by (simp add: lexExp_def)
  next
    case True
    with a Cons obtain b t' where "lexDigits b t' = Some (x, r)" and "length t' \<le> length t"
      by (cases t) (auto simp: lexExp_def split: if_splits)
    with lexDigits_shorter [of b t' x r] Cons show ?thesis by simp
  qed
qed

lemma lexNumber_shorter:
  assumes "lexNumber s = Some (m, e, rest)"
  shows "length rest < length s"
proof -
  let ?s1 = "if s \<noteq> [] \<and> hd s = 45 then tl s else s"
  from assms obtain ip s2 fp s3 x where
    a: "lexInt ?s1 = Some (ip, s2)" and b: "lexFrac s2 = Some (fp, s3)"
    and c: "lexExp s3 = Some (x, rest)"
    by (auto simp: lexNumber_def Let_def split: option.splits)
  have "length ?s1 \<le> length s" by simp
  with lexInt_shorter [OF a] lexFrac_shorter [OF b] lexExp_shorter [OF c]
  show ?thesis by linarith
qed

text \<open>
  The tokens of a JSON text. White space between tokens is TAB, LF, CR and SP only.
  After a string or a number the scan goes on behind the literal.
\<close>

function tokenize :: "js_string \<Rightarrow> token list option" where
  "tokenize [] = Some []"
| "tokenize (c # cs) =
     (if isJsonSpace c then tokenize cs
      else if c = 123 then map_option (Cons LBrace) (tokenize cs)
      else if c = 125 then map_option (Cons RBrace) (tokenize cs)
      else if c = 91 then map_option (Cons LBracket) (tokenize cs)
      else if c = 93 then map_option (Cons RBracket) (tokenize cs)
      else if c = 58 then map_option (Cons Colon) (tokenize cs)
      else if c = 44 then map_option (Cons Comma) (tokenize cs)
      else if c = 34 then
        (case lexString [] cs of
           None \<Rightarrow> None
         | Some (s, rest) \<Rightarrow>
             map_option (Cons (TString s)) (tokenize rest))
      else if c = 45 \<or> isDigit c then
        (case lexNumber (c # cs) of
           None \<Rightarrow> None
         | Some (m, e, rest) \<Rightarrow>
             map_option (Cons (TNumber m e)) (tokenize rest))
      else if prefix (js ''true'') (c # cs) then map_option (Cons TTrue) (tokenize (drop 3 cs))
      else if prefix (js ''false'') (c # cs) then map_option (Cons TFalse) (tokenize (drop 4 cs))
      else if prefix (js ''null'') (c # cs) then map_option (Cons TNull) (tokenize (drop 3 cs))
      else None)"
  by pat_completeness auto
termination
proof (relation "measure length")
  fix c cs x2 s rest
  assume "lexString [] cs = Some x2" "(s, rest) = x2"
  then show "(rest, c # cs) \<in> measure length"
    using lexString_shorter [of "[]" cs s rest] by simp
next
  fix c cs x2 m y e rest
  assume "lexNumber (c # cs) = Some x2" "(m, y) = x2" "(e, rest) = y"
  then show "(rest, c # cs) \<in> measure length"
    using lexNumber_shorter [of "c # cs" m e rest] by simp
qed auto

text \<open>
  The grammar of JSON values over the tokens, as a pushdown automaton: \<open>frame\<close> is an
  enclosing array or object under construction, \<open>pstate\<close> says what may come next.
  Array elements are collected in reverse. A repeated key overwrites the earlier value.
\<close>

datatype frame =
    ArrayFrame "json list"
  | ObjectFrame "(js_string \<times> json) list"
  | MemberFrame "(js_string \<times> json) list" js_string

datatype pstate =
    WantValue
  | WantValueOrClose
  | WantKeyOrClose
  | WantKey
  | WantColon js_string
  | HaveValue json

fun parseTokens :: "frame list \<Rightarrow> pstate \<Rightarrow> token list \<Rightarrow> json option" where
  "parseTokens [] (HaveValue v) [] = Some v"
| "parseTokens st q [] = None"
| "parseTokens st (HaveValue v) (t # ts) =
     (case (st, t) of
        (ArrayFrame vs # st1, Comma) \<Rightarrow> parseTokens (ArrayFrame (v # vs) # st1) WantValue ts
      | (ArrayFrame vs # st1, RBracket) \<Rightarrow> parseTokens st1 (HaveValue (JArray (rev (v # vs)))) ts
      | (MemberFrame ps k # st1, Comma) \<Rightarrow> parseTokens (ObjectFrame (setProperty k v ps) # st1) WantKey ts
      | (MemberFrame ps k # st1, RBrace) \<Rightarrow> parseTokens st1 (HaveValue (JObject (setProperty k v ps))) ts
      | _ \<Rightarrow> None)"
| "parseTokens st (WantColon k) (t # ts) =
     (case (st, t) of
        (ObjectFrame ps # st1, Colon) \<Rightarrow> parseTokens (MemberFrame ps k # st1) WantValue ts
      | _ \<Rightarrow> None)"
| "parseTokens st WantKey (t # ts) =
     (case t of TString k \<Rightarrow> parseTokens st (WantColon k) ts | _ \<Rightarrow> None)"
| "parseTokens st WantKeyOrClose (t # ts) =
     (case (st, t) of
        (_, TString k) \<Rightarrow> parseTokens st (WantColon k) ts
      | (ObjectFrame ps # st1, RBrace) \<Rightarrow> parseTokens st1 (HaveValue (JObject ps)) ts
      | _ \<Rightarrow> None)"
| "parseTokens st q (t # ts) =
     (case (st, q, t) of
        (ArrayFrame vs # st1, WantValueOrClose, RBracket) \<Rightarrow> parseTokens st1 (HaveValue (JArray (rev vs))) ts
      | (_, _, LBrace) \<Rightarrow> parseTokens (ObjectFrame [] # st) WantKeyOrClose ts
      | (_, _, LBracket) \<Rightarrow> parseTokens (ArrayFrame [] # st) WantValueOrClose ts
      | (_, _, TString x) \<Rightarrow> parseTokens st (HaveValue (JString x)) ts
      | (_, _, TNumber m e) \<Rightarrow> parseTokens st (HaveValue (JNumber m e)) ts
      | (_, _, TTrue) \<Rightarrow> parseTokens st (HaveValue (JBool True)) ts
      | (_, _, TFalse) \<Rightarrow> parseTokens st (HaveValue (JBool False)) ts
      | (_, _, TNull) \<Rightarrow> parseTokens st (HaveValue JNull) ts
      | _ \<Rightarrow> None)"

text \<open>
  Predicates on the values and on the states of the automaton, used to say that a parse
  has not met an opening brace.
\<close>

fun isObject :: "json \<Rightarrow> bool" where
  "isObject (JObject ps) = True"
| "isObject v = False"

fun isArrayFrame :: "frame \<Rightarrow> bool" where
  "isArrayFrame (ArrayFrame vs) = True"
| "isArrayFrame f = False"

fun plainState :: "pstate \<Rightarrow> bool" where
  "plainState WantValue = True"
| "plainState WantValueOrClose = True"
| "plainState (HaveValue v) = (\<not> isObject v)"
| "plainState q = False"

text \<open>\<open>JSON.parse\<close>: \<open>None\<close> stands for the \<open>SyntaxError\<close> it throws.\<close>

definition JSON_parse :: "js_string \<Rightarrow> json option" where
  "JSON_parse s = (case tokenize s of None \<Rightarrow> None | Some ts \<Rightarrow> parseTokens [] WantValue ts)"

section \<open>The recovery pipeline of \<open>callGeminiAPI\<close>\<close>

subsection \<open>Fence stripping\<close>

text \<open>
  \<open>responseText.replace(/```json\n?|\n?```/g, '')\<close>. \<open>fenceMatch s\<close> is the length of the
  match of the regular expression at the start of \<open>s\<close>, 0 when there is none: the first
  alternative is tried first and takes the newline when it is there; the second one gives
  up its optional newline when no fence follows it. The global replace deletes each match
  and goes on behind it.
\<close>

definition fenceMatch :: "js_string \<Rightarrow> nat" where
  "fenceMatch s =
     (if prefix (js ''```json'') s then (if prefix [10] (drop 7 s) then 8 else 7)
      else if prefix (10 # js ''```'') s then 4
      else if prefix (js ''```'') s then 3
      else 0)"

function stripFences :: "js_string \<Rightarrow> js_string" where
  "stripFences [] = []"
| "stripFences (c # cs) =
     (if fenceMatch (c # cs) = 0 then c # stripFences cs
      else stripFences (drop (fenceMatch (c # cs)) (c # cs)))"
  by pat_completeness auto
termination
  by (relation "measure length") auto

subsection \<open>Object isolation\<close>

text \<open>
  \<open>cleanedText.match(/\{[\s\S]*\}/)\<close>: the match starts at the first \<open>{\<close> and, the star
  being greedy, ends at the last \<open>}\<close> behind it. There is no match (\<open>None\<close>) when the
  text has no \<open>{\<close> or no \<open>}\<close> behind its first \<open>{\<close>.
\<close>

definition isolateObject :: "js_string \<Rightarrow> js_string option" where
  "isolateObject s =
     (let r = dropWhile (\<lambda>c. c \<noteq> 123) s
      in if 125 \<in> set r then Some (rev (dropWhile (\<lambda>c. c \<noteq> 125) (rev r))) else None)"

subsection \<open>Newlines inside strings\<close>

text \<open>\<open>match.replace(/\n/g, ' ').replace(/\s+/g, ' ')\<close>, applied to each match.\<close>

definition replaceNewlines :: "js_string \<Rightarrow> js_string" where
  "replaceNewlines s = map (\<lambda>c. if c = 10 then 32 else c) s"

function collapseWhiteSpace :: "js_string \<Rightarrow> js_string" where
  "collapseWhiteSpace [] = []"
| "collapseWhiteSpace (c # cs) =
     (if isWhiteSpace c then 32 # collapseWhiteSpace (dropWhile isWhiteSpace cs)
      else c # collapseWhiteSpace cs)"
  by pat_completeness auto
termination
  by (relation "measure length") (auto simp: less_Suc_eq_le length_dropWhile_le)

text \<open>
  \<open>cleanedText.replace(/"[^"]*"/g, ...)\<close>: a match is a double quote, the characters up
  to the next double quote, and that quote; a backslash has no special meaning. The scan
  goes on behind the closing quote, so quotes are paired first with second, third with
  fourth, and so on; a last quote without a partner starts no match.
\<close>

function normalizeStrings :: "js_string \<Rightarrow> js_string" where
  "normalizeStrings [] = []"
| "normalizeStrings (c # cs) =
     (if c \<noteq> 34 then c # normalizeStrings cs
      else if 34 \<in> set cs then
        collapseWhiteSpace (replaceNewlines (c # takeWhile (\<lambda>x. x \<noteq> 34) cs @ [34]))
          @ normalizeStrings (tl (dropWhile (\<lambda>x. x \<noteq> 34) cs))
      else c # cs)"
  by pat_completeness auto
termination
proof (relation "measure length")
  fix c :: nat and cs :: js_string
  have "length (dropWhile (\<lambda>x. x \<noteq> 34) cs) \<le> length cs"
    by (rule length_dropWhile_le)
  then show "(tl (dropWhile (\<lambda>x. x \<noteq> 34) cs), c # cs) \<in> measure length"
    by simp
qed auto

subsection \<open>Bracket repair\<close>

text \<open>
  The four counts are taken from the text before anything is appended; missing \<open>]\<close> are
  appended first, then missing \<open>}\<close>.
\<close>

definition repairBrackets :: "js_string \<Rightarrow> js_string" where
  "repairBrackets cleanedText =
     (let openBraces = count_list cleanedText 123;
          closeBraces = count_list cleanedText 125;
          openBrackets = count_list cleanedText 91;
          closeBrackets = count_list cleanedText 93;
          t1 = (if openBrackets > closeBrackets
                then cleanedText @ replicate (openBrackets - closeBrackets) 93 else cleanedText)
      in if openBraces > closeBraces then t1 @ replicate (openBraces - closeBraces) 125 else t1)"

subsection \<open>Parsing the reply\<close>

text \<open>
  The inner \<open>try\<close> block: the candidate text that reaches \<open>JSON.parse\<close>, and the parsed
  value (\<open>None\<close> when \<open>JSON.parse\<close> throws). When the isolation finds no match the text
  is left as it is.
\<close>

definition candidateText :: "js_string \<Rightarrow> js_string" where
  "candidateText responseText =
     (let cleanedText = trim (stripFences responseText);
          cleanedText = (case isolateObject cleanedText of Some jsonMatch \<Rightarrow> jsonMatch | None \<Rightarrow> cleanedText)
      in repairBrackets (normalizeStrings cleanedText))"


definition parseReply :: "js_string \<Rightarrow> json option" where
  "parseReply responseText = JSON_parse (candidateText responseText)"

subsection \<open>Validation and defaults\<close>

text \<open>
  The errors \<open>callGeminiAPI\<close> throws, one constructor for each \<open>throw\<close> of the source
  (its outer \<open>catch\<close> prefixes every message with \<open>API call failed\<close>), and \<open>TypeError\<close> for
  the property reads of \<open>null\<close> or \<open>undefined\<close> that the source does not guard.
  \<open>MalformedJson\<close> carries the excerpt \<open>responseText.substring(0, 200)\<close> of its message;
  the parser's own message is not modelled.
\<close>

datatype api_error =
    RequestFailed js_string
  | ContentBlocked js_string
  | NoResponse
  | ResponseBlocked
  | TruncatedResponse
  | InvalidUpstreamShape
  | MalformedJson js_string
  | MissingRequiredField
  | TypeError

text \<open>
  A number is zero when its literal denotes 0 or a value that rounds to 0 as a double
  (at most \<open>2 ^ -1075\<close> in absolute value). \<open>truthy\<close> is JavaScript's \<open>ToBoolean\<close> on the
  values of \<open>json\<close>.
\<close>

definition isZero :: "int \<Rightarrow> int \<Rightarrow> bool" where
  "isZero m e = (m = 0 \<or> (e < 0 \<and> \<bar>m\<bar> * 2 ^ 1075 \<le> 10 ^ nat (- e)))"

fun truthy :: "json \<Rightarrow> bool" where
  "truthy JNull = False"
| "truthy (JBool b) = b"
| "truthy (JNumber m e) = (\<not> isZero m e)"
| "truthy (JString s) = (s \<noteq> [])"
| "truthy (JArray vs) = True"
| "truthy (JObject ps) = True"

text \<open>
  \<open>analysisData.k\<close> for one of the five field names of the source (none of them is a
  property of a string, an array or \<open>Object.prototype\<close>): \<open>None\<close> is \<open>undefined\<close>.
  Reading a property of \<open>null\<close> throws; that case is taken before \<open>getField\<close> is used.
\<close>

fun getField :: "json \<Rightarrow> js_string \<Rightarrow> json option" where
  "getField (JObject ps) k = map_of ps k"
| "getField v k = None"

fun setField :: "js_string \<Rightarrow> json \<Rightarrow> json \<Rightarrow> json" where
  "setField k v (JObject ps) = JObject (setProperty k v ps)"
| "setField k v d = d"

text \<open>\<open>!x\<close> and \<open>x || d\<close> on a property that may be \<open>undefined\<close>.\<close>

definition falsy :: "json option \<Rightarrow> bool" where
  "falsy x = (case x of None \<Rightarrow> True | Some v \<Rightarrow> \<not> truthy v)"

definition orDefault :: "json option \<Rightarrow> json \<Rightarrow> json" where
  "orDefault x d = (case x of None \<Rightarrow> d | Some v \<Rightarrow> if truthy v then v else d)"

definition validate :: "json \<Rightarrow> api_error + json" where
  "validate analysisData =
     (if analysisData = JNull then Inl TypeError
      else if falsy (getField analysisData (js ''credibility_score''))
            \<or> falsy (getField analysisData (js ''reasoning_summary''))
      then Inl MissingRequiredField
      else
        (let d1 = setField (js ''confidence'')
                    (orDefault (getField analysisData (js ''confidence'')) (JNumber 75 0)) analysisData;
             d2 = setField (js ''political_leaning'')
                    (orDefault (getField d1 (js ''political_leaning'')) (JString (js ''Neutral''))) d1;
             d3 = setField (js ''corroboration_analysis'')
                    (orDefault (getField d2 (js ''corroboration_analysis'')) (JArray [])) d2
         in Inr d3))"

text \<open>The property is there and is a number that is zero.\<close>

definition zeroNumber :: "json option \<Rightarrow> bool" where
  "zeroNumber x = (case x of Some (JNumber m e) \<Rightarrow> isZero m e | _ \<Rightarrow> False)"

text \<open>
  \<open>recover\<close> is the part of \<open>callGeminiAPI\<close> from the reply text on: the candidate is
  parsed, a \<open>SyntaxError\<close> becomes \<open>MalformedJson\<close>, and the parsed value is validated.
\<close>

definition recover :: "js_string \<Rightarrow> api_error + json" where
  "recover responseText =
     (case parseReply responseText of
        None \<Rightarrow> Inl (MalformedJson (take 200 responseText))
      | Some analysisData \<Rightarrow> validate analysisData)"

text \<open>
  Two results have the same outcome when they are the same record or the same kind of
  error: \<open>outcome\<close> forgets the excerpt of the raw reply that \<open>MalformedJson\<close> carries.
\<close>

fun outcome :: "api_error + json \<Rightarrow> api_error + json" where
  "outcome (Inl (MalformedJson x)) = Inl (MalformedJson [])"
| "outcome r = r"

section \<open>The requester: \<open>callGeminiAPI\<close> on the upstream response\<close>

text \<open>
  The response of \<open>fetch\<close>, with the wire format of the upstream service: either a
  response that is not \<open>ok\<close>, with \<open>errorData.error?.message\<close> and \<open>response.statusText\<close>,
  or the success envelope. A field that may be absent is an \<open>option\<close>. The request itself
  (prompt, network call) is outside the model.
\<close>

record feedback =
  blockReason :: "js_string option"

record part =
  partText :: "js_string option"

record content =
  parts :: "part list option"

record candidate =
  finishReason :: "js_string option"
  content :: "content option"

record envelope =
  promptFeedback :: "feedback option"
  candidates :: "candidate list option"

datatype response =
    NotOk "js_string option" js_string
  | Ok envelope

text \<open>\<open>data.promptFeedback && data.promptFeedback.blockReason\<close>, when it is truthy.\<close>

definition blockedBy :: "envelope \<Rightarrow> js_string option" where
  "blockedBy data =
     (case promptFeedback data of
        None \<Rightarrow> None
      | Some f \<Rightarrow> (case blockReason f of None \<Rightarrow> None | Some r \<Rightarrow> if r = [] then None else Some r))"

text \<open>The check of \<open>candidate.finishReason\<close>: the error it throws, if any.\<close>

definition finishError :: "candidate \<Rightarrow> api_error option" where
  "finishError c =
     (case finishReason c of
        None \<Rightarrow> None
      | Some r \<Rightarrow>
          (if r \<noteq> [] \<and> r \<noteq> js ''STOP'' then
             (if r = js ''SAFETY'' then Some ResponseBlocked
              else if r = js ''MAX_TOKENS'' then Some TruncatedResponse
              else None)
           else None))"

text \<open>\<open>candidate.content.parts[0].text\<close>, with the guard of the source before it.\<close>

definition responseTextOf :: "candidate \<Rightarrow> api_error + js_string" where
  "responseTextOf c =
     (case content c of
        None \<Rightarrow> Inl InvalidUpstreamShape
      | Some ct \<Rightarrow>
          (case parts ct of
             None \<Rightarrow> Inl InvalidUpstreamShape
           | Some [] \<Rightarrow> Inl TypeError
           | Some (p # ps) \<Rightarrow> (case partText p of None \<Rightarrow> Inl TypeError | Some t \<Rightarrow> Inr t)))"

definition callGeminiAPI :: "response \<Rightarrow> api_error + json" where
  "callGeminiAPI r =
     (case r of
        NotOk message statusText \<Rightarrow>
          Inl (RequestFailed (case message of
                                None \<Rightarrow> statusText
                              | Some m \<Rightarrow> if m = [] then statusText else m))
      | Ok data \<Rightarrow>
          (case blockedBy data of
             Some reason \<Rightarrow> Inl (ContentBlocked reason)
           | None \<Rightarrow>
               (case candidates data of
                  None \<Rightarrow> Inl NoResponse
                | Some [] \<Rightarrow> Inl NoResponse
                | Some (c # cs) \<Rightarrow>
                    (case finishError c of
                       Some e \<Rightarrow> Inl e
                     | None \<Rightarrow>
                         (case responseTextOf c of
                            Inl e \<Rightarrow> Inl e
                          | Inr responseText \<Rightarrow> recover responseText)))))"

section \<open>Content extraction\<close>

text \<open>
  A document, as far as the extractors look at it: \<open>querySelector d s\<close> is the
  \<open>innerText\<close> of the first element that matches the selector \<open>s\<close> (\<open>None\<close> when
  \<open>document.querySelector\<close> returns \<open>null\<close>), \<open>body d\<close> is \<open>document.body.innerText\<close>.
\<close>

record document =
  querySelector :: "js_string \<Rightarrow> js_string option"
  body :: js_string

subsection \<open>\<open>extractArticleContent\<close> (service-worker.js)\<close>

definition workerSelectors :: "js_string list" where
  \<open>workerSelectors =
     [js ''article'', js ''[role="article"]'', js ''main article'', js ''.article-content'',
      js ''.post-content'', js ''.entry-content'', js ''main'', js ''.content'']\<close>

text \<open>The loop stops at the first selector that matches an element, whatever its text.\<close>

fun firstElementText :: "document \<Rightarrow> js_string list \<Rightarrow> js_string" where
  "firstElementText d [] = []"
| "firstElementText d (s # ss) =
     (case querySelector d s of Some t \<Rightarrow> t | None \<Rightarrow> firstElementText d ss)"

definition extractArticleContent :: "document \<Rightarrow> js_string" where
  "extractArticleContent d =
     (let articleText = firstElementText d workerSelectors;
          articleText = (if articleText = [] \<or> length (trim articleText) < 100
                         then body d else articleText)
      in take 3000 articleText)"

subsection \<open>\<open>extractArticleText\<close> (content-script.js)\<close>

definition scriptSelectors :: "js_string list" where
  \<open>scriptSelectors =
     [js ''article'', js ''[role="article"]'', js ''main article'', js ''.article-content'',
      js ''.post-content'', js ''.entry-content'', js ''.story-body'', js ''.article-body'',
      js ''main'', js ''.content'']\<close>

text \<open>
  The loop stores the text of every element it finds and stops only at one whose trimmed
  text is longer than 200; the first argument is the value of \<open>articleText\<close> so far.
\<close>

fun substantialText :: "js_string \<Rightarrow> document \<Rightarrow> js_string list \<Rightarrow> js_string" where
  "substantialText articleText d [] = articleText"
| "substantialText articleText d (s # ss) =
     (case querySelector d s of
        Some t \<Rightarrow> if length (trim t) > 200 then t else substantialText t d ss
      | None \<Rightarrow> substantialText articleText d ss)"

text \<open>\<open>replace(/\n{3,}/g, '\n\n')\<close>: a run of three or more newlines becomes two.\<close>

function squeezeNewlines :: "js_string \<Rightarrow> js_string" where
  "squeezeNewlines [] = []"
| "squeezeNewlines (c # cs) =
     (if c = 10 \<and> 2 \<le> length (takeWhile (\<lambda>x. x = 10) cs)
      then 10 # 10 # squeezeNewlines (dropWhile (\<lambda>x. x = 10) cs)
      else c # squeezeNewlines cs)"
  by pat_completeness auto
termination
  by (relation "measure length") (auto simp: less_Suc_eq_le length_dropWhile_le)

definition extractArticleText :: "document \<Rightarrow> js_string" where
  "extractArticleText d =
     (let articleText = substantialText [] d scriptSelectors;
          articleText = (if articleText = [] \<or> length (trim articleText) < 200
                         then body d else articleText);
          articleText = trim (squeezeNewlines (collapseWhiteSpace articleText))
      in take 5000 articleText)"

subsection \<open>The extractor of the specification\<close>

text \<open>
  The extractor as the specification words it: the text of the first selector that matches; the
  body text when none matches or that text, trimmed, is shorter than the threshold; cut
  to the cap.
\<close>

definition specExtract :: "js_string list \<Rightarrow> nat \<Rightarrow> nat \<Rightarrow> document \<Rightarrow> js_string" where
  "specExtract selectors threshold cap d =
     take cap (case List.map_filter (querySelector d) selectors of
                 [] \<Rightarrow> body d
               | t # ts \<Rightarrow> if length (trim t) < threshold then body d else t)"

section \<open>The history log\<close>

text \<open>
  An entry of the log. \<open>title\<close> is \<open>url.split('/')[2]\<close>, \<open>undefined\<close> (\<open>None\<close>) when the URL
  has fewer than two slashes; \<open>score\<close> is \<open>analysisData.credibility_score\<close>; \<open>timestamp\<close>
  is the value of \<open>Date.now()\<close>, a parameter of the model.
\<close>

record history_entry =
  url :: js_string
  title :: "js_string option"
  score :: "json option"
  timestamp :: nat

fun split :: "nat \<Rightarrow> js_string \<Rightarrow> js_string list" where
  "split sep [] = [[]]"
| "split sep (c # cs) =
     (if c = sep then [] # split sep cs
      else (case split sep cs of [] \<Rightarrow> [[c]] | w # ws \<Rightarrow> (c # w) # ws))"

definition newEntry :: "js_string \<Rightarrow> json \<Rightarrow> nat \<Rightarrow> history_entry" where
  "newEntry u analysisData now =
     \<lparr>url = u,
      title = (let segments = split 47 u in if 2 < length segments then Some (segments ! 2) else None),
      score = getField analysisData (js ''credibility_score''),
      timestamp = now\<rparr>"

text \<open>
  \<open>saveToHistory\<close>: the stored log (\<open>None\<close> when the key \<open>analysisHistory\<close> is not in the
  store) gets the new entry at its end, and \<open>slice(-20)\<close> keeps the last 20 entries. The
  result is the list written back.
\<close>

definition saveToHistory :: "js_string \<Rightarrow> json \<Rightarrow> nat \<Rightarrow> history_entry list option \<Rightarrow> history_entry list" where
  "saveToHistory u analysisData now stored =
     (let history = (case stored of None \<Rightarrow> [] | Some h \<Rightarrow> h) @ [newEntry u analysisData now]
      in drop (length history - 20) history)"

text \<open>A sequence of analyses saved one after the other, each given as URL, record and time.\<close>

fun saveAll :: "history_entry list \<Rightarrow> (js_string \<times> json \<times> nat) list \<Rightarrow> history_entry list" where
  "saveAll h [] = h"
| "saveAll h ((u, a, now) # xs) = saveAll (saveToHistory u a now (Some h)) xs"

abbreviation entryOf :: "js_string \<times> json \<times> nat \<Rightarrow> history_entry" where
  "entryOf x \<equiv> (case x of (u, a, now) \<Rightarrow> newEntry u a now)"

section \<open>Example inputs\<close>

text \<open>
  A reply wrapped in a markdown code fence, with the language tag \<open>json\<close> or without
  it, and a newline on the inner side of each fence.
\<close>

definition fenced :: "bool \<Rightarrow> js_string \<Rightarrow> js_string" where
  "fenced tagged t = (if tagged then js ''```json'' else js ''```'') @ [10] @ t @ [10] @ js ''```''"

text \<open>Twenty-five analyses saved one after the other, numbered by their time stamps.\<close>

definition visits :: "(js_string \<times> json \<times> nat) list" where
  "visits = map (\<lambda>i. (js ''https://e.com/a'', JObject [(js ''credibility_score'', JNumber (int i) 0)], i)) [1..<26]"

text \<open>A success envelope whose first candidate finished for a reason the source does not name.\<close>

definition recitation :: envelope where
  \<open>recitation =
     \<lparr>promptFeedback = None,
      candidates = Some [\<lparr>finishReason = Some (js ''RECITATION''),
                          content = Some \<lparr>parts = Some [\<lparr>partText = Some (js ''{"credibility_score": 7, "reasoning_summary": "ok"}'')\<rparr>]\<rparr>\<rparr>]\<rparr>\<close>

text \<open>
  A page whose \<open>article\<close> element is short and whose \<open>main\<close> element has 201
  characters, and a page without any of the elements, with two spaces in its body text.
\<close>

definition shortArticle :: document where
  "shortArticle =
     \<lparr>querySelector = (\<lambda>s. if s = js ''article'' then Some (js ''short'')
                          else if s = js ''main'' then Some (replicate 201 97) else None),
      body = js ''BODY''\<rparr>"

definition spacedBody :: document where
  "spacedBody = \<lparr>querySelector = (\<lambda>s. None), body = js ''a  b''\<rparr>"

section \<open>A reply recovered\<close>

text \<open>The pipeline on a well-formed reply; the other fields get their defaults.\<close>

lemma recover_small:
  \<open>recover (js ''{"credibility_score": 7, "reasoning_summary": "ok"}'')
   = Inr (JObject [(js ''credibility_score'', JNumber 7 0), (js ''reasoning_summary'', JString (js ''ok'')),
       (js ''confidence'', JNumber 75 0), (js ''political_leaning'', JString (js ''Neutral'')),
       (js ''corroboration_analysis'', JArray [])])\<close>
  by code_simp

section \<open>The history log is bounded\<close>

lemma saveToHistory_Some:
  "saveToHistory u a now (Some h) = drop (Suc (length h) - 20) (h @ [newEntry u a now])"
  by (simp add: saveToHistory_def Let_def)

lemma saveAll_drop:
  "length h \<le> 20 \<Longrightarrow> saveAll h xs = drop (length h + length xs - 20) (h @ map entryOf xs)"
proof (induction xs arbitrary: h)
  case Nil
  then show ?case by simp
next
  case (Cons x xs)
  obtain u a now where x: "x = (u, a, now)" by (cases x)
  let ?e = "newEntry u a now"
  let ?k = "Suc (length h) - 20"
  let ?h' = "drop ?k (h @ [?e])"
  have len: "length ?h' \<le> 20" using Cons.prems by simp
  have "saveAll h (x # xs) = saveAll ?h' xs"
    by (simp add: x saveToHistory_Some)
  also have "\<dots> = drop (length ?h' + length xs - 20) (?h' @ map entryOf xs)"
    by (rule Cons.IH [OF len])
  also have "?h' @ map entryOf xs = drop ?k (h @ map entryOf (x # xs))"
    using Cons.prems by (simp add: x)
  also have "drop (length ?h' + length xs - 20) (drop ?k (h @ map entryOf (x # xs)))
      = drop (length h + length (x # xs) - 20) (h @ map entryOf (x # xs))"
  proof -
    have "length ?h' + length xs - 20 + ?k = length h + length (x # xs) - 20"
      using Cons.prems by (cases "length h = 20") auto
    then show ?thesis by (simp only: drop_drop)
  qed
  finally show ?case .
qed

text \<open>
  C8. Starting from a log of at most 20 entries, after any sequence of saves the log has at
  most 20 entries and is the last 20 entries of the old log followed by the new entries, in
  the order of insertion; after more than 20 saves it is the last 20 saved entries.
\<close>

theorem history_bounded:
  assumes "length h \<le> 20"
  shows "length (saveAll h xs) \<le> 20
    \<and> saveAll h xs = drop (length h + length xs - 20) (h @ map entryOf xs)
    \<and> (20 < length xs \<longrightarrow> saveAll h xs = drop (length xs - 20) (map entryOf xs))"
proof -
  have eq: "saveAll h xs = drop (length h + length xs - 20) (h @ map entryOf xs)"
    using saveAll_drop [OF assms] by simp
  have "length (saveAll h xs) \<le> 20"
    unfolding eq using assms by simp
  moreover have "saveAll h xs = drop (length xs - 20) (map entryOf xs)" if "20 < length xs"
    unfolding eq using that assms by simp
  ultimately show ?thesis using eq by blast
qed

theorem history_bounded_witness:
  "length ([] :: history_entry list) \<le> 20 \<and> 20 < length visits
   \<and> length (saveAll [] visits) \<le> 20
   \<and> map timestamp (saveAll [] visits) = [6..<26]"
  using history_bounded [of "[]" visits]
  by (simp add: visits_def newEntry_def drop_map comp_def)

section \<open>The finish reason\<close>

text \<open>
  C10. When the envelope has a candidate and the finish reason of the first one is none of
  \<open>STOP\<close>, \<open>SAFETY\<close> and \<open>MAX_TOKENS\<close>, the finish reason raises no error and the call
  has the result it has with the reason \<open>STOP\<close>; when nothing else stops it, that is the
  result of the recovery pipeline on the text of the candidate.
\<close>

theorem other_finish_reason_like_stop:
  assumes "candidates data = Some (c # cs)"
    and "finishReason c = Some r"
    and "r \<noteq> js ''STOP''" and "r \<noteq> js ''SAFETY''" and "r \<noteq> js ''MAX_TOKENS''"
  shows "finishError c = None
    \<and> callGeminiAPI (Ok data)
        = callGeminiAPI (Ok (data\<lparr>candidates := Some (c\<lparr>finishReason := Some (js ''STOP'')\<rparr> # cs)\<rparr>))
    \<and> (blockedBy data = None \<longrightarrow> (\<forall>t. responseTextOf c = Inr t \<longrightarrow> callGeminiAPI (Ok data) = recover t))"
proof -
  have fe: "finishError c = None"
    using assms(2-5) by (simp add: finishError_def)
  have fe': "finishError (c\<lparr>finishReason := Some (js ''STOP'')\<rparr>) = None"
    by (simp add: finishError_def)
  have rt: "responseTextOf (c\<lparr>finishReason := Some (js ''STOP'')\<rparr>) = responseTextOf c"
    by (simp add: responseTextOf_def)
  have bl: "blockedBy (data\<lparr>candidates := Some (c\<lparr>finishReason := Some (js ''STOP'')\<rparr> # cs)\<rparr>) = blockedBy data"
    by (simp add: blockedBy_def)
  have "callGeminiAPI (Ok data)
        = callGeminiAPI (Ok (data\<lparr>candidates := Some (c\<lparr>finishReason := Some (js ''STOP'')\<rparr> # cs)\<rparr>))"
    using assms(1) fe fe' rt bl by (cases "blockedBy data") (simp_all add: callGeminiAPI_def)
  moreover have "callGeminiAPI (Ok data) = recover t" if "blockedBy data = None" "responseTextOf c = Inr t" for t
    using assms(1) fe that by (simp add: callGeminiAPI_def)
  ultimately show ?thesis using fe by blast
qed

theorem other_finish_reason_like_stop_witness:
  \<open>candidates recitation \<noteq> None
   \<and> callGeminiAPI (Ok recitation)
     = Inr (JObject [(js ''credibility_score'', JNumber 7 0), (js ''reasoning_summary'', JString (js ''ok'')),
       (js ''confidence'', JNumber 75 0), (js ''political_leaning'', JString (js ''Neutral'')),
       (js ''corroboration_analysis'', JArray [])])\<close>
proof -
  let ?c = "\<lparr>finishReason = Some (js ''RECITATION''),
             content = Some \<lparr>parts = Some [\<lparr>partText = Some (js ''{\"credibility_score\": 7, \"reasoning_summary\": \"ok\"}'')\<rparr>]\<rparr>\<rparr>"
  have 1: "candidates recitation = Some (?c # [])" by (simp add: recitation_def)
  have 2: "finishReason ?c = Some (js ''RECITATION'')" by simp
  have 3: "js ''RECITATION'' \<noteq> js ''STOP''" "js ''RECITATION'' \<noteq> js ''SAFETY''"
    "js ''RECITATION'' \<noteq> js ''MAX_TOKENS''" by simp_all
  have 4: "blockedBy recitation = None" by (simp add: recitation_def blockedBy_def)
  have 5: "responseTextOf ?c = Inr (js ''{\"credibility_score\": 7, \"reasoning_summary\": \"ok\"}'')"
    by (simp add: responseTextOf_def)
  from other_finish_reason_like_stop [OF 1 2 3] 4 5
  have "callGeminiAPI (Ok recitation) = recover (js ''{\"credibility_score\": 7, \"reasoning_summary\": \"ok\"}'')"
    by blast
  then show ?thesis using 1 recover_small by simp
qed

section \<open>Newlines inside strings\<close>

lemma collapse_replaceNewlines: "collapseWhiteSpace (replaceNewlines s) = collapseWhiteSpace s"
proof (induction s rule: collapseWhiteSpace.induct)
  case 1
  then show ?case by (simp add: replaceNewlines_def)
next
  case (2 c cs)
  have sp: "isWhiteSpace 32" "isWhiteSpace 10" by (simp_all add: isWhiteSpace_def)
  have dw: "dropWhile isWhiteSpace (replaceNewlines cs) = replaceNewlines (dropWhile isWhiteSpace cs)"
    unfolding replaceNewlines_def by (induction cs) (auto simp: sp)
  show ?case
  proof (cases "isWhiteSpace c")
    case True
    then have "isWhiteSpace (if c = 10 then 32 else c)" by (simp add: sp)
    with True 2 dw show ?thesis
      by (simp add: replaceNewlines_def)
  next
    case False
    then have "c \<noteq> 10" using sp by auto
    with False 2 show ?thesis by (simp add: replaceNewlines_def)
  qed
qed

lemma collapse_no_space: "\<forall>c\<in>set u. \<not> isWhiteSpace c \<Longrightarrow> collapseWhiteSpace (u @ v) = u @ collapseWhiteSpace v"
  by (induction u) auto

lemma collapse_run:
  assumes "w \<noteq> []" and "\<forall>c\<in>set w. isWhiteSpace c" and "v = [] \<or> \<not> isWhiteSpace (hd v)"
  shows "collapseWhiteSpace (w @ v) = 32 # collapseWhiteSpace v"
proof -
  obtain c cs where w: "w = c # cs" using assms(1) by (cases w) auto
  have "dropWhile isWhiteSpace (cs @ v) = v"
    using assms(2,3) unfolding w by (cases v) (auto simp: dropWhile_append3 dropWhile_append)
  then show ?thesis using assms(2) unfolding w by simp
qed

lemma collapse_not_space: "\<not> isWhiteSpace c \<Longrightarrow> collapseWhiteSpace (u @ c # v) = collapseWhiteSpace u @ c # collapseWhiteSpace v"
proof (induction u rule: collapseWhiteSpace.induct)
  case 1
  then show ?case by simp
next
  case (2 d ds)
  show ?case
  proof (cases "isWhiteSpace d")
    case False
    with 2 show ?thesis by simp
  next
    case True
    have "dropWhile isWhiteSpace (ds @ c # v) = dropWhile isWhiteSpace ds @ c # v"
      using "2.prems" by (induction ds) auto
    with True 2 show ?thesis by simp
  qed
qed

lemma normalize_no_quote: "34 \<notin> set pre \<Longrightarrow> normalizeStrings (pre @ s) = pre @ normalizeStrings s"
  by (induction pre) auto

lemma normalize_pair:
  assumes "34 \<notin> set inner"
  shows "normalizeStrings (34 # inner @ 34 # rest) = 34 # collapseWhiteSpace inner @ 34 # normalizeStrings rest"
proof -
  have q: "\<not> isWhiteSpace 34" by (simp add: isWhiteSpace_def)
  have t: "takeWhile (\<lambda>x. x \<noteq> 34) (inner @ 34 # rest) = inner"
    using assms by (induction inner) auto
  have d: "dropWhile (\<lambda>x. x \<noteq> 34) (inner @ 34 # rest) = 34 # rest"
    using assms by (induction inner) auto
  have "collapseWhiteSpace (replaceNewlines (34 # inner @ [34])) = 34 # collapseWhiteSpace inner @ [34]"
    using q collapse_not_space [OF q, of inner "[]"] by (simp add: collapse_replaceNewlines)
  then show ?thesis by (simp add: t d)
qed

lemma normalize_unpaired: "34 \<notin> set inner \<Longrightarrow> normalizeStrings (34 # inner) = 34 # inner"
  by simp

text \<open>
  C4 (amended). The stage pairs the double quotes of the text from left to right, a
  backslash before a quote notwithstanding. Between a pair of quotes every run of white
  space becomes one space; the text before the first quote, and the text from a last quote
  without a partner on, are unchanged. \<open>collapseWhiteSpace\<close> replaces a run of white space
  by one space and leaves the other characters as they are.
\<close>

theorem normalize_pairs_quotes:
  assumes "34 \<notin> set pre" and "34 \<notin> set inner"
    and "\<forall>c\<in>set u. \<not> isWhiteSpace c" and "w \<noteq> []" and "\<forall>c\<in>set w. isWhiteSpace c"
    and "v = [] \<or> \<not> isWhiteSpace (hd v)"
  shows "normalizeStrings (pre @ 34 # inner @ 34 # rest)
           = pre @ 34 # collapseWhiteSpace inner @ 34 # normalizeStrings rest
    \<and> normalizeStrings (pre @ 34 # inner) = pre @ 34 # inner
    \<and> normalizeStrings pre = pre
    \<and> collapseWhiteSpace (u @ w @ v) = u @ 32 # collapseWhiteSpace v
    \<and> collapseWhiteSpace u = u"
proof -
  have "normalizeStrings (pre @ []) = pre @ normalizeStrings []"
    by (rule normalize_no_quote [OF assms(1)])
  moreover have "collapseWhiteSpace (u @ []) = u @ collapseWhiteSpace []"
    by (rule collapse_no_space [OF assms(3)])
  ultimately show ?thesis
    using normalize_no_quote [OF assms(1)] normalize_pair [OF assms(2)] normalize_unpaired [OF assms(2)]
      collapse_no_space [OF assms(3)] collapse_run [OF assms(4,5,6)]
    by simp
qed

theorem normalize_pairs_quotes_witness:
  \<open>normalizeStrings (js ''{ "x \<newline>\<newline> y" , "b'') = js ''{ "x y" , "b''
   \<and> collapseWhiteSpace (js ''x \<newline>\<newline> y'') = js ''x y''\<close>
proof -
  have 1: \<open>34 \<notin> set (js ''{ '')\<close> by simp
  have 2: \<open>34 \<notin> set (js ''x \<newline>\<newline> y'')\<close> by simp
  have 3: \<open>\<forall>c\<in>set (js ''x''). \<not> isWhiteSpace c\<close> by (simp add: isWhiteSpace_def)
  have 4: \<open>js '' \<newline>\<newline> '' \<noteq> []\<close> by simp
  have 5: \<open>\<forall>c\<in>set (js '' \<newline>\<newline> ''). isWhiteSpace c\<close> by (simp add: isWhiteSpace_def)
  have 6: \<open>js ''y'' = [] \<or> \<not> isWhiteSpace (hd (js ''y''))\<close> by (simp add: isWhiteSpace_def)
  from normalize_pairs_quotes [OF 1 2 3 4 5 6, of \<open>js '' , "b''\<close>]
  show ?thesis by (simp add: isWhiteSpace_def)
qed

text \<open>
  The claim as stated fails on a string literal with an escaped quote: the white space
  inside the literal, behind the escaped quote, is kept, the white space between the
  literal and the next one is collapsed; and the white space of a literal that is not
  closed is kept.
\<close>

theorem normalize_ignores_escapes:
  \<open>normalizeStrings (js ''{"a":"x'' @ [92] @ js ''"  y",  "b":1}'')
     = js ''{"a":"x'' @ [92] @ js ''"  y", "b":1}''
   \<and> JSON_parse (js ''{"a":"x'' @ [92] @ js ''"  y",  "b":1}'')
     = Some (JObject [(js ''a'', JString (js ''x"  y'')), (js ''b'', JNumber 1 0)])
   \<and> normalizeStrings (js ''{"a":  "x  y'') = js ''{"a":  "x  y''\<close>
  by code_simp
section \<open>Validation and defaults\<close>

lemma map_of_setProperty: "map_of (setProperty k v ps) = (map_of ps)(k \<mapsto> v)"
  by (induction ps) (auto simp: fun_eq_iff)

lemma validate_object:
  "validate (JObject ps) =
     (if falsy (map_of ps (js ''credibility_score'')) \<or> falsy (map_of ps (js ''reasoning_summary''))
      then Inl MissingRequiredField
      else Inr (JObject
        (setProperty (js ''corroboration_analysis'')
           (orDefault (map_of ps (js ''corroboration_analysis'')) (JArray []))
           (setProperty (js ''political_leaning'')
              (orDefault (map_of ps (js ''political_leaning'')) (JString (js ''Neutral'')))
              (setProperty (js ''confidence'')
                 (orDefault (map_of ps (js ''confidence'')) (JNumber 75 0)) ps)))))"
  by (simp add: validate_def Let_def map_of_setProperty)

lemma recover_object:
  "parseReply t = Some (JObject ps) \<Longrightarrow> recover t = validate (JObject ps)"
  by (simp add: recover_def)

text \<open>
  C1 (amended). For a reply that parses to an object whose \<open>credibility_score\<close> is not the
  number zero, the pipeline fails with \<open>MissingRequiredField\<close> exactly when
  \<open>credibility_score\<close> or \<open>reasoning_summary\<close> is absent or is \<open>null\<close>, \<open>false\<close> or the
  empty string (or \<open>reasoning_summary\<close> is a number that is zero).
\<close>

theorem missing_field_iff_falsy:
  assumes "parseReply t = Some (JObject ps)"
    and "\<not> zeroNumber (map_of ps (js ''credibility_score''))"
  shows "recover t = Inl MissingRequiredField \<longleftrightarrow>
      map_of ps (js ''credibility_score'') \<in> {None, Some JNull, Some (JBool False), Some (JString [])}
    \<or> map_of ps (js ''reasoning_summary'') \<in> {None, Some JNull, Some (JBool False), Some (JString [])}
    \<or> zeroNumber (map_of ps (js ''reasoning_summary''))"
proof -
  have f: "falsy x \<longleftrightarrow> x \<in> {None, Some JNull, Some (JBool False), Some (JString [])} \<or> zeroNumber x" for x
  proof (cases x)
    case None
    then show ?thesis by (simp add: falsy_def)
  next
    case (Some v)
    then show ?thesis by (cases v) (auto simp: falsy_def zeroNumber_def)
  qed
  have "recover t = Inl MissingRequiredField \<longleftrightarrow>
      falsy (map_of ps (js ''credibility_score'')) \<or> falsy (map_of ps (js ''reasoning_summary''))"
    unfolding recover_object [OF assms(1)] validate_object by simp
  then show ?thesis using assms(2) unfolding f by blast
qed


theorem missing_field_iff_falsy_witness:
  \<open>parseReply (js ''{"reasoning_summary": "x", "credibility_score": null}'')
     = Some (JObject [(js ''reasoning_summary'', JString (js ''x'')), (js ''credibility_score'', JNull)])
   \<and> recover (js ''{"reasoning_summary": "x", "credibility_score": null}'') = Inl MissingRequiredField\<close>
proof -
  have 1: \<open>parseReply (js ''{"reasoning_summary": "x", "credibility_score": null}'')
     = Some (JObject [(js ''reasoning_summary'', JString (js ''x'')), (js ''credibility_score'', JNull)])\<close>
    by code_simp
  have 2: \<open>\<not> zeroNumber (map_of [(js ''reasoning_summary'', JString (js ''x'')), (js ''credibility_score'', JNull)]
      (js ''credibility_score''))\<close>
    by (simp add: zeroNumber_def)
  from missing_field_iff_falsy [OF 1 2] 1 show ?thesis by simp
qed

text \<open>The claim as stated fails: an empty \<open>reasoning_summary\<close> is present and is refused.\<close>

theorem empty_summary_counts_as_missing:
  \<open>parseReply (js ''{"credibility_score": 50, "reasoning_summary": ""}'')
     = Some (JObject [(js ''credibility_score'', JNumber 50 0), (js ''reasoning_summary'', JString [])])
   \<and> recover (js ''{"credibility_score": 50, "reasoning_summary": ""}'') = Inl MissingRequiredField\<close>
  by code_simp

text \<open>
  C2 (amended). For a reply that parses to an object with truthy \<open>credibility_score\<close> and
  \<open>reasoning_summary\<close>, and whose \<open>confidence\<close> is not the number zero, recovery succeeds;
  the two required fields are as supplied, and each of \<open>confidence\<close>, \<open>political_leaning\<close>
  and \<open>corroboration_analysis\<close> is the supplied value when that is present and truthy (as
  every array is), and its default (75, \<open>Neutral\<close>, the empty array) otherwise.
\<close>

theorem defaults_applied:
  assumes "parseReply t = Some (JObject ps)"
    and "map_of ps (js ''credibility_score'') = Some v" and "truthy v"
    and "map_of ps (js ''reasoning_summary'') = Some w" and "truthy w"
    and "\<not> zeroNumber (map_of ps (js ''confidence''))"
  shows "\<exists>d. recover t = Inr d
    \<and> getField d (js ''credibility_score'') = Some v
    \<and> getField d (js ''reasoning_summary'') = Some w
    \<and> getField d (js ''confidence'')
        = Some (case map_of ps (js ''confidence'') of
                  None \<Rightarrow> JNumber 75 0
                | Some x \<Rightarrow> if truthy x then x else JNumber 75 0)
    \<and> getField d (js ''political_leaning'')
        = Some (case map_of ps (js ''political_leaning'') of
                  None \<Rightarrow> JString (js ''Neutral'')
                | Some x \<Rightarrow> if truthy x then x else JString (js ''Neutral''))
    \<and> getField d (js ''corroboration_analysis'')
        = Some (case map_of ps (js ''corroboration_analysis'') of
                  None \<Rightarrow> JArray []
                | Some x \<Rightarrow> if truthy x then x else JArray [])"
proof -
  let ?d = "JObject
        (setProperty (js ''corroboration_analysis'')
           (orDefault (map_of ps (js ''corroboration_analysis'')) (JArray []))
           (setProperty (js ''political_leaning'')
              (orDefault (map_of ps (js ''political_leaning'')) (JString (js ''Neutral'')))
              (setProperty (js ''confidence'')
                 (orDefault (map_of ps (js ''confidence'')) (JNumber 75 0)) ps)))"
  have r: "recover t = Inr ?d"
    unfolding recover_object [OF assms(1)] validate_object
    using assms(2-5) by (simp add: falsy_def)
  have "getField ?d (js ''credibility_score'') = Some v"
    using assms(2) by (simp add: map_of_setProperty)
  moreover have "getField ?d (js ''reasoning_summary'') = Some w"
    using assms(4) by (simp add: map_of_setProperty)
  moreover have "getField ?d (js ''confidence'')
        = Some (case map_of ps (js ''confidence'') of
                  None \<Rightarrow> JNumber 75 0
                | Some x \<Rightarrow> if truthy x then x else JNumber 75 0)"
    by (simp add: map_of_setProperty orDefault_def split: option.split)
  moreover have "getField ?d (js ''political_leaning'')
        = Some (case map_of ps (js ''political_leaning'') of
                  None \<Rightarrow> JString (js ''Neutral'')
                | Some x \<Rightarrow> if truthy x then x else JString (js ''Neutral''))"
    by (simp add: map_of_setProperty orDefault_def split: option.split)
  moreover have "getField ?d (js ''corroboration_analysis'')
        = Some (case map_of ps (js ''corroboration_analysis'') of
                  None \<Rightarrow> JArray []
                | Some x \<Rightarrow> if truthy x then x else JArray [])"
    by (simp add: map_of_setProperty orDefault_def split: option.split)
  ultimately show ?thesis using r by blast
qed


theorem defaults_applied_witness:
  \<open>\<exists>d. recover (js ''{"credibility_score": 82, "reasoning_summary": "ok", "confidence": 90}'') = Inr d
     \<and> getField d (js ''confidence'') = Some (JNumber 90 0)
     \<and> getField d (js ''political_leaning'') = Some (JString (js ''Neutral''))
     \<and> getField d (js ''corroboration_analysis'') = Some (JArray [])\<close>
proof -
  let ?ps = \<open>[(js ''credibility_score'', JNumber 82 0), (js ''reasoning_summary'', JString (js ''ok'')),
              (js ''confidence'', JNumber 90 0)]\<close>
  have 1: \<open>parseReply (js ''{"credibility_score": 82, "reasoning_summary": "ok", "confidence": 90}'')
     = Some (JObject ?ps)\<close>
    by code_simp
  have 2: \<open>map_of ?ps (js ''credibility_score'') = Some (JNumber 82 0)\<close> by simp
  have 3: \<open>truthy (JNumber 82 0)\<close> by (simp add: isZero_def)
  have 4: \<open>map_of ?ps (js ''reasoning_summary'') = Some (JString (js ''ok''))\<close> by simp
  have 5: \<open>truthy (JString (js ''ok''))\<close> by simp
  have 6: \<open>\<not> zeroNumber (map_of ?ps (js ''confidence''))\<close> by (simp add: zeroNumber_def isZero_def)
  from defaults_applied [OF 1 2 3 4 5 6] show ?thesis by (auto simp: isZero_def)
qed

text \<open>
  The claim as stated fails: a \<open>political_leaning\<close> that is present and is the empty string
  is replaced by the default.
\<close>

theorem empty_leaning_replaced:
  \<open>parseReply (js ''{"credibility_score": 50, "reasoning_summary": "ok", "political_leaning": ""}'')
     = Some (JObject [(js ''credibility_score'', JNumber 50 0), (js ''reasoning_summary'', JString (js ''ok'')),
          (js ''political_leaning'', JString [])])
   \<and> recover (js ''{"credibility_score": 50, "reasoning_summary": "ok", "political_leaning": ""}'')
     = Inr (JObject [(js ''credibility_score'', JNumber 50 0), (js ''reasoning_summary'', JString (js ''ok'')),
          (js ''political_leaning'', JString (js ''Neutral'')), (js ''confidence'', JNumber 75 0),
          (js ''corroboration_analysis'', JArray [])])\<close>
  by code_simp

section \<open>Content extraction\<close>

lemma firstElementText_map_filter:
  "firstElementText d ss = (case List.map_filter (querySelector d) ss of [] \<Rightarrow> [] | t # ts \<Rightarrow> t)"
  by (induction ss) (auto simp: List.map_filter_simps split: option.splits)

lemma substantialText_find:
  "substantialText a d ss =
     (case find (\<lambda>t. 200 < length (trim t)) (List.map_filter (querySelector d) ss) of
        Some t \<Rightarrow> t
      | None \<Rightarrow> last (a # List.map_filter (querySelector d) ss))"
  by (induction ss arbitrary: a) (auto simp: List.map_filter_simps split: option.splits)

lemma collapse_no_newline: "10 \<notin> set (collapseWhiteSpace s)"
proof (induction s rule: collapseWhiteSpace.induct)
  case 1
  then show ?case by simp
next
  case (2 c cs)
  have "isWhiteSpace 10" by (simp add: isWhiteSpace_def)
  with 2 show ?case by (cases "isWhiteSpace c") auto
qed

lemma squeeze_no_newline: "10 \<notin> set s \<Longrightarrow> squeezeNewlines s = s"
  by (induction s) auto

text \<open>
  C9 (amended). The extractor of the service worker is the extractor of the specification
  with threshold 100 and cap 3000. The extractor of the content script takes the text of
  the first selector that matches an element whose trimmed text is longer than 200; when
  there is none, the body text, unless the last matching element has a trimmed text of
  length 200 or more; it replaces every run of white space by one space, trims, and cuts
  to 5000 characters.
\<close>

theorem extractors_select:
  "extractArticleContent d = specExtract workerSelectors 100 3000 d
   \<and> extractArticleText d =
       take 5000 (trim (collapseWhiteSpace
         (let texts = List.map_filter (querySelector d) scriptSelectors
          in case find (\<lambda>t. 200 < length (trim t)) texts of
               Some t \<Rightarrow> t
             | None \<Rightarrow> if texts = [] \<or> length (trim (last texts)) < 200 then body d else last texts)))"
proof -
  have "extractArticleContent d = specExtract workerSelectors 100 3000 d"
    by (auto simp: extractArticleContent_def specExtract_def firstElementText_map_filter Let_def trim_def
        split: list.splits)
  moreover have "extractArticleText d =
       take 5000 (trim (collapseWhiteSpace
         (let texts = List.map_filter (querySelector d) scriptSelectors
          in case find (\<lambda>t. 200 < length (trim t)) texts of
               Some t \<Rightarrow> t
             | None \<Rightarrow> if texts = [] \<or> length (trim (last texts)) < 200 then body d else last texts)))"
  proof -
    let ?texts = "List.map_filter (querySelector d) scriptSelectors"
    show ?thesis
    proof (cases "find (\<lambda>t. 200 < length (trim t)) ?texts")
      case None
      then show ?thesis
        by (auto simp: extractArticleText_def substantialText_find Let_def trim_def
            squeeze_no_newline [OF collapse_no_newline])
    next
      case (Some t)
      then have "200 < length (trim t)" by (auto simp: find_Some_iff)
      then have "\<not> length (trim t) < 200" "t \<noteq> []" by (auto simp: trim_def)
      with Some show ?thesis
        by (simp add: extractArticleText_def substantialText_find Let_def
            squeeze_no_newline [OF collapse_no_newline])
    qed
  qed
  ultimately show ?thesis by blast
qed

text \<open>
  The claim as stated fails for the content script: it goes on behind a short
  \<open>article\<close> element to a longer \<open>main\<close> element where the specification falls back to
  the body, and it changes the white space of the text.
\<close>

theorem content_script_differs:
  "specExtract scriptSelectors 200 5000 shortArticle = js ''BODY''
   \<and> extractArticleText shortArticle = replicate 201 97
   \<and> specExtract scriptSelectors 200 5000 spacedBody = js ''a  b''
   \<and> extractArticleText spacedBody = js ''a b''"
  by code_simp


section \<open>Prose around the object\<close>

lemma prefix_append_other:
  assumes "\<not> prefix xs ys" and "zs \<noteq> []" and "hd zs \<notin> set xs"
  shows "\<not> prefix xs (ys @ zs)"
proof
  assume "prefix xs (ys @ zs)"
  then obtain us where us: "xs = ys @ us" "prefix us zs"
    using assms(1) by (auto simp: prefix_append)
  with assms(1) have "us \<noteq> []" by auto
  with us(2) assms(2) have "hd us = hd zs"
    by (cases us; cases zs) auto
  with \<open>us \<noteq> []\<close> us(1) assms(3) show False
    by (cases us) auto
qed

lemma prefix_append_iff:
  assumes "zs \<noteq> []" and "hd zs \<notin> set xs"
  shows "prefix xs (ys @ zs) \<longleftrightarrow> prefix xs ys"
  using prefix_append_other [OF _ assms] by (auto simp: prefix_append)

lemma fenceMatch_le: "fenceMatch s \<le> length s"
  by (auto simp: fenceMatch_def prefix_def)

lemma fenceMatch_first: "c \<noteq> 96 \<Longrightarrow> c \<noteq> 10 \<Longrightarrow> fenceMatch (c # cs) = 0"
  by (simp add: fenceMatch_def)

lemma fenceMatch_separator:
  assumes "x \<notin> {96, 10, 106, 115, 111, 110}"
  shows "fenceMatch (s @ x # r) = fenceMatch s"
proof -
  have a: "prefix (js ''```json'') (s @ x # r) \<longleftrightarrow> prefix (js ''```json'') s"
    using assms by (intro prefix_append_iff) auto
  have b: "prefix (10 # js ''```'') (s @ x # r) \<longleftrightarrow> prefix (10 # js ''```'') s"
    using assms by (intro prefix_append_iff) auto
  have c: "prefix (js ''```'') (s @ x # r) \<longleftrightarrow> prefix (js ''```'') s"
    using assms by (intro prefix_append_iff) auto
  have d: "prefix [10] (drop 7 (s @ x # r)) \<longleftrightarrow> prefix [10] (drop 7 s)"
    if "prefix (js ''```json'') s"
  proof -
    from that have "7 \<le> length s" by (auto simp: prefix_def)
    then have "drop 7 (s @ x # r) = drop 7 s @ x # r" by simp
    moreover have "prefix [10] (drop 7 s @ x # r) \<longleftrightarrow> prefix [10] (drop 7 s)"
      using assms by (intro prefix_append_iff) auto
    ultimately show ?thesis by simp
  qed
  show ?thesis
    unfolding fenceMatch_def a b c using d by auto
qed

lemma stripFences_separator:
  assumes "x \<notin> {96, 10, 106, 115, 111, 110}"
  shows "stripFences (s @ x # r) = stripFences s @ x # stripFences r"
proof (induction s rule: stripFences.induct)
  case 1
  have "fenceMatch (x # r) = 0" using assms by (intro fenceMatch_first) auto
  then show ?case by simp
next
  case (2 c cs)
  have m: "fenceMatch ((c # cs) @ x # r) = fenceMatch (c # cs)"
    by (rule fenceMatch_separator [OF assms])
  show ?case
  proof (cases "fenceMatch (c # cs) = 0")
    case True
    with 2 m show ?thesis by simp
  next
    case False
    let ?n = "fenceMatch (c # cs)"
    have "stripFences ((c # cs) @ x # r) = stripFences (drop ?n ((c # cs) @ x # r))"
      using False m by simp
    also have "drop ?n ((c # cs) @ x # r) = drop ?n (c # cs) @ x # r"
      using fenceMatch_le [of "c # cs"] by (simp only: drop_append) simp
    also have "stripFences (drop ?n (c # cs) @ x # r) = stripFences (drop ?n (c # cs)) @ x # stripFences r"
      using False by (rule "2.IH"(2))
    also have "stripFences (drop ?n (c # cs)) = stripFences (c # cs)"
      using False by simp
    finally show ?thesis .
  qed
qed

lemma set_stripFences: "set (stripFences s) \<subseteq> set s"
proof (induction s rule: stripFences.induct)
  case 1
  then show ?case by simp
next
  case (2 c cs)
  show ?case
  proof (cases "fenceMatch (c # cs) = 0")
    case True
    with 2 show ?thesis by auto
  next
    case False
    with 2 have "set (stripFences (c # cs)) \<subseteq> set (drop (fenceMatch (c # cs)) (c # cs))"
      by simp
    also have "\<dots> \<subseteq> set (c # cs)" by (rule set_drop_subset)
    finally show ?thesis .
  qed
qed

lemma dropWhile_append_stop: "\<not> P x \<Longrightarrow> dropWhile P (a @ x # t) = dropWhile P a @ x # t"
  by (induction a) auto

lemma trim_between:
  assumes "\<not> isWhiteSpace x" and "\<not> isWhiteSpace y"
  shows "trim (a @ x # m @ y # b)
         = dropWhile isWhiteSpace a @ x # m @ y # rev (dropWhile isWhiteSpace (rev b))"
proof -
  have "dropWhile isWhiteSpace (a @ x # m @ y # b) = dropWhile isWhiteSpace a @ x # m @ y # b"
    using assms(1) by (rule dropWhile_append_stop)
  moreover have "dropWhile isWhiteSpace (rev b @ y # rev m @ x # rev (dropWhile isWhiteSpace a))
      = dropWhile isWhiteSpace (rev b) @ y # rev m @ x # rev (dropWhile isWhiteSpace a)"
    using assms(2) by (rule dropWhile_append_stop)
  ultimately show ?thesis by (simp add: trim_def)
qed

lemma isolate_between:
  assumes "123 \<notin> set a" and "125 \<notin> set b"
  shows "isolateObject (a @ 123 # m @ 125 # b) = Some (123 # m @ [125])"
proof -
  have 1: "dropWhile (\<lambda>c. c \<noteq> 123) (a @ 123 # m @ 125 # b) = 123 # m @ 125 # b"
    using assms(1) by (induction a) auto
  have 2: "dropWhile (\<lambda>c. c \<noteq> 125) (rev b @ 125 # rev m @ [123]) = 125 # rev m @ [123]"
    using assms(2) by (induction b rule: rev_induct) auto
  show ?thesis by (simp add: isolateObject_def 1 2)
qed

lemma cleaned_between:
  assumes "123 \<notin> set p1" and "125 \<notin> set p2"
  shows "isolateObject (trim (stripFences (p1 @ 123 # mid @ 125 # p2)))
         = Some (123 # stripFences mid @ [125])"
proof -
  have s: "stripFences (p1 @ 123 # mid @ 125 # p2)
      = stripFences p1 @ 123 # stripFences mid @ 125 # stripFences p2"
    by (simp add: stripFences_separator)
  have ws: "\<not> isWhiteSpace 123" "\<not> isWhiteSpace 125" by (simp_all add: isWhiteSpace_def)
  have a: "123 \<notin> set (dropWhile isWhiteSpace (stripFences p1))"
    using assms(1) set_stripFences [of p1] set_dropWhileD [of 123 isWhiteSpace "stripFences p1"] by auto
  have b: "125 \<notin> set (rev (dropWhile isWhiteSpace (rev (stripFences p2))))"
    using assms(2) set_stripFences [of p2] set_dropWhileD [of 125 isWhiteSpace "rev (stripFences p2)"] by auto
  show ?thesis
    unfolding s trim_between [OF ws] by (rule isolate_between [OF a b])
qed

lemma recover_outcome:
  "candidateText a = candidateText b \<Longrightarrow> outcome (recover a) = outcome (recover b)"
  by (simp add: recover_def parseReply_def split: option.splits)

text \<open>
  C6 (amended). Let the object text begin with \<open>{\<close> and end with \<open>}\<close>, let the prose
  before it have no \<open>{\<close> and the prose behind it no \<open>}\<close>. Then the isolation finds the
  object text (without its fences), and recovery gives what it gives for the object text
  alone: the same parsed value, and the same record or the same kind of error.
\<close>

theorem prose_around_object:
  assumes "123 \<notin> set p1" and "125 \<notin> set p2"
  shows "isolateObject (trim (stripFences (p1 @ 123 # mid @ 125 # p2)))
           = Some (123 # stripFences mid @ [125])
    \<and> parseReply (p1 @ 123 # mid @ 125 # p2) = parseReply (123 # mid @ [125])
    \<and> outcome (recover (p1 @ 123 # mid @ 125 # p2)) = outcome (recover (123 # mid @ [125]))"
proof -
  have 1: "isolateObject (trim (stripFences (p1 @ 123 # mid @ 125 # p2)))
           = Some (123 # stripFences mid @ [125])"
    by (rule cleaned_between [OF assms])
  have 2: "isolateObject (trim (stripFences ([] @ 123 # mid @ 125 # [])))
           = Some (123 # stripFences mid @ [125])"
    by (rule cleaned_between) simp_all
  have c: "candidateText (p1 @ 123 # mid @ 125 # p2) = candidateText (123 # mid @ [125])"
    using 1 2 by (simp add: candidateText_def Let_def)
  then have "parseReply (p1 @ 123 # mid @ 125 # p2) = parseReply (123 # mid @ [125])"
    by (simp add: parseReply_def)
  with 1 recover_outcome [OF c] show ?thesis by simp
qed


theorem prose_around_object_witness:
  \<open>outcome (recover (js ''Sure: {"credibility_score": 7, "reasoning_summary": "ok"} Bye''))
   = Inr (JObject [(js ''credibility_score'', JNumber 7 0), (js ''reasoning_summary'', JString (js ''ok'')),
       (js ''confidence'', JNumber 75 0), (js ''political_leaning'', JString (js ''Neutral'')),
       (js ''corroboration_analysis'', JArray [])])\<close>
proof -
  have 1: \<open>123 \<notin> set (js ''Sure: '')\<close> by simp
  have 2: \<open>125 \<notin> set (js '' Bye'')\<close> by simp
  from prose_around_object [OF 1 2, of \<open>js ''"credibility_score": 7, "reasoning_summary": "ok"''\<close>]
    recover_small
  show ?thesis by simp
qed

text \<open>
  The claim as stated fails for prose with a brace: the match starts at the first \<open>{\<close> of
  the prose, and the candidate does not parse.
\<close>

theorem brace_in_prose:
  \<open>recover (js ''Note {a}: {"credibility_score": 7, "reasoning_summary": "ok"}'')
     = Inl (MalformedJson (js ''Note {a}: {"credibility_score": 7, "reasoning_summary": "ok"}''))
   \<and> recover (js ''{"credibility_score": 7, "reasoning_summary": "ok"}'')
     = Inr (JObject [(js ''credibility_score'', JNumber 7 0), (js ''reasoning_summary'', JString (js ''ok'')),
         (js ''confidence'', JNumber 75 0), (js ''political_leaning'', JString (js ''Neutral'')),
         (js ''corroboration_analysis'', JArray [])])\<close>
  by code_simp


section \<open>Fenced replies\<close>

lemma fenceMatch_closing_zero:
  assumes "s \<noteq> []" and "fenceMatch s = 0"
  shows "fenceMatch (s @ 10 # js ''```'') = 0"
proof -
  from assms(2) have n: "\<not> prefix (js ''```json'') s" "\<not> prefix (10 # js ''```'') s" "\<not> prefix (js ''```'') s"
    by (auto simp: fenceMatch_def split: if_splits)
  have a: "\<not> prefix (js ''```json'') (s @ 10 # js ''```'')"
    using n(1) by (rule prefix_append_other) auto
  have c: "\<not> prefix (js ''```'') (s @ 10 # js ''```'')"
    using n(3) by (rule prefix_append_other) auto
  have b: "\<not> prefix (10 # js ''```'') (s @ 10 # js ''```'')"
  proof (cases s)
    case Nil
    with assms(1) show ?thesis by simp
  next
    case (Cons d ds)
    show ?thesis
    proof (cases "d = 10")
      case False
      with Cons show ?thesis by simp
    next
      case True
      with Cons n(2) have "\<not> prefix (js ''```'') ds" by simp
      then have "\<not> prefix (js ''```'') (ds @ 10 # js ''```'')"
        by (rule prefix_append_other) auto
      with Cons True show ?thesis by simp
    qed
  qed
  from a b c show ?thesis by (simp add: fenceMatch_def)
qed

lemma fenceMatch_closing_pos:
  assumes "fenceMatch s \<noteq> 0" and "s \<noteq> js ''```json''"
  shows "fenceMatch (s @ 10 # js ''```'') = fenceMatch s"
proof (cases "prefix (js ''```json'') s")
  case True
  then obtain r where r: "s = js ''```json'' @ r" by (auto simp: prefix_def)
  with assms(2) have "r \<noteq> []" by auto
  then obtain d ds where "r = d # ds" by (cases r) auto
  with r show ?thesis by (simp add: fenceMatch_def)
next
  case False
  then have a: "\<not> prefix (js ''```json'') (s @ 10 # js ''```'')"
    by (rule prefix_append_other) auto
  from assms(1) False have "prefix (10 # js ''```'') s \<or> prefix (js ''```'') s"
    by (auto simp: fenceMatch_def split: if_splits)
  then show ?thesis
  proof
    assume p: "prefix (10 # js ''```'') s"
    then have "prefix (10 # js ''```'') (s @ 10 # js ''```'')" by (rule prefix_prefix)
    with p False a show ?thesis by (simp add: fenceMatch_def)
  next
    assume p: "prefix (js ''```'') s"
    then have q: "prefix (js ''```'') (s @ 10 # js ''```'')" by (rule prefix_prefix)
    from p have "\<not> prefix (10 # js ''```'') s" by (cases s) auto
    moreover from p have "\<not> prefix (10 # js ''```'') (s @ 10 # js ''```'')" by (cases s) auto
    ultimately show ?thesis using p q False a by (simp add: fenceMatch_def)
  qed
qed

lemma stripFences_closing: "stripFences (t @ 10 # js ''```'') = stripFences t"
proof (induction t rule: stripFences.induct)
  case 1
  show ?case by (simp add: fenceMatch_def)
next
  case (2 c cs)
  let ?n = "fenceMatch (c # cs)"
  show ?case
  proof (cases "?n = 0")
    case True
    then have "fenceMatch ((c # cs) @ 10 # js ''```'') = 0"
      by (intro fenceMatch_closing_zero) simp_all
    with True 2 show ?thesis by simp
  next
    case False
    show ?thesis
    proof (cases "c # cs = js ''```json''")
      case True
      then show ?thesis by (simp add: fenceMatch_def)
    next
      case ne: False
      have m: "fenceMatch ((c # cs) @ 10 # js ''```'') = ?n"
        using False ne by (rule fenceMatch_closing_pos)
      have "stripFences ((c # cs) @ 10 # js ''```'') = stripFences (drop ?n ((c # cs) @ 10 # js ''```''))"
        using False m by simp
      also have "drop ?n ((c # cs) @ 10 # js ''```'') = drop ?n (c # cs) @ 10 # js ''```''"
        using fenceMatch_le [of "c # cs"] by (simp only: drop_append) simp
      also have "stripFences (drop ?n (c # cs) @ 10 # js ''```'') = stripFences (drop ?n (c # cs))"
        using False by (rule "2.IH"(2))
      also have "stripFences (drop ?n (c # cs)) = stripFences (c # cs)"
        using False by simp
      finally show ?thesis .
    qed
  qed
qed

lemma trim_leading: "isWhiteSpace c \<Longrightarrow> trim (c # s) = trim s"
  by (simp add: trim_def)

lemma stripFences_fenced:
  assumes "tagged \<or> \<not> prefix (js ''```json'') t"
  shows "trim (stripFences (fenced tagged t)) = trim (stripFences t)"
proof (cases tagged)
  case True
  have "stripFences (fenced True t) = stripFences (t @ 10 # js ''```'')"
    by (simp add: fenced_def fenceMatch_def)
  also have "\<dots> = stripFences t"
    by (rule stripFences_closing)
  finally show ?thesis using True by simp
next
  case False
  with assms have np: "\<not> prefix (js ''```json'') t" by simp
  have nl: "isWhiteSpace 10" by (simp add: isWhiteSpace_def)
  have 1: "stripFences (fenced False t) = stripFences (10 # t @ 10 # js ''```'')"
    by (simp add: fenced_def fenceMatch_def)
  show ?thesis
  proof (cases "prefix (js ''```'') t")
    case True
    then obtain r where r: "t = js ''```'' @ r" by (auto simp: prefix_def)
    have "stripFences (10 # t @ 10 # js ''```'') = stripFences (r @ 10 # js ''```'')"
      unfolding r by (simp add: fenceMatch_def)
    also have "\<dots> = stripFences r"
      by (rule stripFences_closing)
    also have "stripFences r = stripFences t"
    proof -
      have "fenceMatch t = 3"
        using np True by (cases t) (auto simp: fenceMatch_def)
      then show ?thesis unfolding r by simp
    qed
    finally show ?thesis using False 1 by simp
  next
    case nf: False
    then have "\<not> prefix (js ''```'') (t @ 10 # js ''```'')"
      by (rule prefix_append_other) auto
    then have "stripFences (10 # t @ 10 # js ''```'') = 10 # stripFences (t @ 10 # js ''```'')"
      by (simp add: fenceMatch_def)
    also have "stripFences (t @ 10 # js ''```'') = stripFences t"
      by (rule stripFences_closing)
    finally show ?thesis using False 1 by (simp add: trim_leading [OF nl])
  qed
qed

text \<open>
  C7 (amended). A reply wrapped in a fence tagged \<open>json\<close> is recovered as the reply
  itself: the same parsed value, and the same record or the same kind of error. So is a
  reply wrapped in a bare fence, unless the reply itself begins with a tagged fence.
\<close>

theorem fence_is_transparent:
  assumes "tagged \<or> \<not> prefix (js ''```json'') t"
  shows "parseReply (fenced tagged t) = parseReply t
    \<and> outcome (recover (fenced tagged t)) = outcome (recover t)"
proof -
  have c: "candidateText (fenced tagged t) = candidateText t"
    by (simp add: candidateText_def stripFences_fenced [OF assms])
  then have "parseReply (fenced tagged t) = parseReply t"
    by (simp add: parseReply_def)
  with recover_outcome [OF c] show ?thesis by simp
qed


theorem fence_is_transparent_witness:
  \<open>outcome (recover (js ''```\<newline>{"credibility_score": 7, "reasoning_summary": "ok"}\<newline>```''))
   = Inr (JObject [(js ''credibility_score'', JNumber 7 0), (js ''reasoning_summary'', JString (js ''ok'')),
       (js ''confidence'', JNumber 75 0), (js ''political_leaning'', JString (js ''Neutral'')),
       (js ''corroboration_analysis'', JArray [])])\<close>
proof -
  have 1: \<open>False \<or> \<not> prefix (js ''```json'') (js ''{"credibility_score": 7, "reasoning_summary": "ok"}'')\<close>
    by simp
  from fence_is_transparent [OF 1] recover_small
  show ?thesis by (simp add: fenced_def)
qed

text \<open>
  The claim as stated fails for a reply that begins with a tagged fence: inside a bare
  fence the newline and the fence of the reply are taken as a closing fence, and the tag
  \<open>json\<close> stays in the text.
\<close>

theorem fence_inside_bare_fence:
  \<open>recover (js ''```json{"credibility_score": 7, "reasoning_summary": "ok"'')
     = Inr (JObject [(js ''credibility_score'', JNumber 7 0), (js ''reasoning_summary'', JString (js ''ok'')),
         (js ''confidence'', JNumber 75 0), (js ''political_leaning'', JString (js ''Neutral'')),
         (js ''corroboration_analysis'', JArray [])])
   \<and> fenced False (js ''```json{"credibility_score": 7, "reasoning_summary": "ok"'')
     = js ''```\<newline>```json{"credibility_score": 7, "reasoning_summary": "ok"\<newline>```''
   \<and> recover (fenced False (js ''```json{"credibility_score": 7, "reasoning_summary": "ok"''))
     = Inl (MalformedJson (js ''```\<newline>```json{"credibility_score": 7, "reasoning_summary": "ok"\<newline>```''))\<close>
  by code_simp

section \<open>A reply without an object\<close>

lemma parseTokens_no_object:
  "LBrace \<notin> set ts \<Longrightarrow> list_all isArrayFrame st \<Longrightarrow> plainState q
   \<Longrightarrow> parseTokens st q ts = Some v \<Longrightarrow> \<not> isObject v"
proof (induction ts arbitrary: st q)
  case Nil
  then show ?case by (cases st; cases q) auto
next
  case (Cons t ts)
  from Cons.prems(1) have nb: "LBrace \<notin> set ts" "t \<noteq> LBrace" by auto
  show ?case
  proof (cases q)
    case WantValue
    with Cons.prems nb show ?thesis
      by (cases t) (auto dest: Cons.IH [OF nb(1), rotated 2] split: list.splits frame.splits)
  next
    case WantValueOrClose
    with Cons.prems nb show ?thesis
      by (cases t; cases st) (auto dest: Cons.IH [OF nb(1), rotated 2] split: list.splits frame.splits)
  next
    case (HaveValue x)
    with Cons.prems nb show ?thesis
      by (cases t; cases st) (auto dest: Cons.IH [OF nb(1), rotated 2] split: list.splits frame.splits)
  qed (use Cons.prems in auto)
qed


lemma lexString_rest: "lexString acc cs = Some (s, rest) \<Longrightarrow> set rest \<subseteq> set cs"
proof (induction acc cs rule: lexString.induct)
  case (1 acc)
  then show ?case by simp
next
  case (2 acc c cs)
  show ?case
  proof (cases "c = 34")
    case True
    with 2 show ?thesis by auto
  next
    case c34: False
    show ?thesis
    proof (cases "c = 92")
      case True
      with 2 c34 obtain u n where e: "lexEscape cs = Some (u, n)"
        and r: "lexString (u # acc) (drop n cs) = Some (s, rest)"
        by (auto split: option.splits)
      from "2.IH"(1) [OF c34 True e refl r] set_drop_subset [of n cs] show ?thesis by auto
    next
      case False
      with 2 c34 have "\<not> c < 32" and "lexString (c # acc) cs = Some (s, rest)"
        by (auto split: if_splits)
      with "2.IH"(2) [OF c34 False] show ?thesis by auto
    qed
  qed
qed

lemma lexInt_rest: "lexInt s = Some (ip, r) \<Longrightarrow> set r \<subseteq> set s"
  by (cases s) (auto simp: lexInt_def split: if_splits dest: set_dropWhileD)

lemma lexFrac_rest: "lexFrac s = Some (fp, r) \<Longrightarrow> set r \<subseteq> set s"
  by (cases s) (auto simp: lexFrac_def split: if_splits dest: set_dropWhileD)

lemma lexDigits_rest: "lexDigits b s = Some (x, r) \<Longrightarrow> set r \<subseteq> set s"
  by (auto simp: lexDigits_def split: if_splits dest: set_dropWhileD)

lemma lexExp_rest: "lexExp s = Some (x, r) \<Longrightarrow> set r \<subseteq> set s"
proof (cases s)
  case Nil
  assume "lexExp s = Some (x, r)"
  with Nil show ?thesis by (simp add: lexExp_def)
next
  case (Cons d t)
  assume a: "lexExp s = Some (x, r)"
  show ?thesis
  proof (cases "d = 101 \<or> d = 69")
    case False
    with a Cons show ?thesis by (simp add: lexExp_def)
  next
    case True
    with a Cons obtain b t' where "lexDigits b t' = Some (x, r)" and "set t' \<subseteq> set t"
      by (cases t) (auto simp: lexExp_def split: if_splits)
    with lexDigits_rest [of b t' x r] Cons show ?thesis by auto
  qed
qed

lemma lexNumber_rest:
  assumes "lexNumber s = Some (m, e, rest)"
  shows "set rest \<subseteq> set s"
proof -
  let ?s1 = "if s \<noteq> [] \<and> hd s = 45 then tl s else s"
  from assms obtain ip s2 fp s3 x where
    a: "lexInt ?s1 = Some (ip, s2)" and b: "lexFrac s2 = Some (fp, s3)"
    and c: "lexExp s3 = Some (x, rest)"
    by (auto simp: lexNumber_def Let_def split: option.splits)
  have "set ?s1 \<subseteq> set s" by (cases s) auto
  with lexInt_rest [OF a] lexFrac_rest [OF b] lexExp_rest [OF c]
  show ?thesis by blast
qed

lemma tokenize_LBrace: "tokenize s = Some ts \<Longrightarrow> LBrace \<in> set ts \<Longrightarrow> 123 \<in> set s"
proof (induction s arbitrary: ts rule: tokenize.induct)
  case 1
  then show ?case by simp
next
  case (2 c cs)
  show ?case
  proof (cases "c = 123")
    case True
    then show ?thesis by simp
  next
    case nb: False
    have sp: "\<not> isJsonSpace 123" by (simp add: isJsonSpace_def)
    consider (space) "isJsonSpace c"
      | (punct) "\<not> isJsonSpace c" "c = 125 \<or> c = 91 \<or> c = 93 \<or> c = 58 \<or> c = 44"
      | (str) "\<not> isJsonSpace c" "c = 34"
      | (num) "\<not> isJsonSpace c" "c \<noteq> 125" "c \<noteq> 91" "c \<noteq> 93" "c \<noteq> 58" "c \<noteq> 44" "c \<noteq> 34" "c = 45 \<or> isDigit c"
      | (word) "\<not> isJsonSpace c" "c \<noteq> 125" "c \<noteq> 91" "c \<noteq> 93" "c \<noteq> 58" "c \<noteq> 44" "c \<noteq> 34" "\<not> (c = 45 \<or> isDigit c)"
      by blast
    then show ?thesis
    proof cases
      case space
      with "2.prems" "2.IH"(1) show ?thesis by auto
    next
      case punct
      with nb "2.prems" "2.IH"(2-7) show ?thesis
        by (auto split: if_splits)
    next
      case str
      with nb "2.prems" obtain x rest ts' where l: "lexString [] cs = Some (x, rest)"
        and t: "tokenize rest = Some ts'" and ts: "ts = TString x # ts'"
        by (auto simp: isJsonSpace_def split: option.splits)
      from "2.prems"(2) ts have "LBrace \<in> set ts'" by simp
      with "2.IH"(8) [OF str(1) nb _ _ _ _ _ str(2) l refl t] str(2) have "123 \<in> set rest"
        by simp
      with lexString_rest [OF l] show ?thesis by auto
    next
      case num
      with nb "2.prems" obtain m e rest ts' where l: "lexNumber (c # cs) = Some (m, e, rest)"
        and t: "tokenize rest = Some ts'" and ts: "ts = TNumber m e # ts'"
        by (auto split: option.splits)
      from "2.prems"(2) ts have "LBrace \<in> set ts'" by simp
      with "2.IH"(9) [OF num(1) nb num(2-7) num(8) l refl refl t] have "123 \<in> set rest"
        by simp
      with lexNumber_rest [OF l] show ?thesis by auto
    next
      case word
      with nb "2.prems" "2.IH"(10-12) set_drop_subset [of 3 cs] set_drop_subset [of 4 cs]
      show ?thesis
        by (auto split: if_splits)
    qed
  qed
qed


lemma JSON_parse_no_object: "JSON_parse s = Some v \<Longrightarrow> 123 \<notin> set s \<Longrightarrow> \<not> isObject v"
proof -
  assume p: "JSON_parse s = Some v" and n: "123 \<notin> set s"
  from p obtain ts where t: "tokenize s = Some ts" and q: "parseTokens [] WantValue ts = Some v"
    by (auto simp: JSON_parse_def split: option.splits)
  from t n have "LBrace \<notin> set ts" using tokenize_LBrace by blast
  from parseTokens_no_object [OF this _ _ q] show ?thesis by simp
qed

lemma validate_not_object:
  "\<not> isObject v \<Longrightarrow> validate v = (if v = JNull then Inl TypeError else Inl MissingRequiredField)"
  by (cases v) (simp_all add: validate_def falsy_def)

lemma set_trim: "set (trim s) \<subseteq> set s"
proof -
  have "set (trim s) \<subseteq> set (dropWhile isWhiteSpace s)"
    unfolding trim_def using set_dropWhileD [of _ isWhiteSpace "rev (dropWhile isWhiteSpace s)"] by auto
  also have "\<dots> \<subseteq> set s" using set_dropWhileD [of _ isWhiteSpace s] by auto
  finally show ?thesis .
qed

lemma isolateObject_no_brace: "123 \<notin> set s \<Longrightarrow> isolateObject s = None"
proof -
  assume "123 \<notin> set s"
  then have d: "dropWhile (\<lambda>c. c \<noteq> 123) s = []" by (induction s) auto
  show ?thesis unfolding isolateObject_def d by simp
qed

lemma set_collapseWhiteSpace: "set (collapseWhiteSpace s) \<subseteq> insert 32 (set s)"
proof (induction s rule: collapseWhiteSpace.induct)
  case 1
  then show ?case by simp
next
  case (2 c cs)
  show ?case
  proof (cases "isWhiteSpace c")
    case True
    with 2 set_dropWhileD [of _ isWhiteSpace cs] show ?thesis by auto
  next
    case False
    with 2 show ?thesis by auto
  qed
qed

lemma set_replaceNewlines: "set (replaceNewlines s) \<subseteq> insert 32 (set s)"
  by (auto simp: replaceNewlines_def)

lemma set_normalizeStrings: "set (normalizeStrings s) \<subseteq> insert 32 (set s)"
proof (induction s rule: normalizeStrings.induct)
  case 1
  then show ?case by simp
next
  case (2 c cs)
  show ?case
  proof (cases "c = 34 \<and> 34 \<in> set cs")
    case False
    with 2 show ?thesis by auto
  next
    case True
    let ?m = "c # takeWhile (\<lambda>x. x \<noteq> 34) cs @ [34]"
    let ?r = "tl (dropWhile (\<lambda>x. x \<noteq> 34) cs)"
    have m: "set ?m \<subseteq> set (c # cs)"
      using True set_takeWhileD [of _ "\<lambda>x. x \<noteq> 34" cs] by auto
    have "set (collapseWhiteSpace (replaceNewlines ?m)) \<subseteq> insert 32 (set (replaceNewlines ?m))"
      by (rule set_collapseWhiteSpace)
    also have "\<dots> \<subseteq> insert 32 (set ?m)"
      using set_replaceNewlines [of ?m] by blast
    finally have a: "set (collapseWhiteSpace (replaceNewlines ?m)) \<subseteq> insert 32 (set (c # cs))"
      using m by blast
    have "set (tl xs) \<subseteq> set xs" for xs :: js_string
      by (cases xs) auto
    then have "set ?r \<subseteq> set (dropWhile (\<lambda>x. x \<noteq> 34) cs)" .
    also have "\<dots> \<subseteq> set cs" using set_dropWhileD [of _ "\<lambda>x. x \<noteq> 34" cs] by auto
    finally have "set ?r \<subseteq> set cs" .
    with "2.IH"(2) True have b: "set (normalizeStrings ?r) \<subseteq> insert 32 (set (c # cs))"
      by auto
    have "normalizeStrings (c # cs) = collapseWhiteSpace (replaceNewlines ?m) @ normalizeStrings ?r"
      using True by simp
    with a b show ?thesis by (simp only: set_append) blast
  qed
qed

lemma set_repairBrackets: "set (repairBrackets s) \<subseteq> set s \<union> {93, 125}"
  by (auto simp: repairBrackets_def Let_def)

lemma candidateText_no_brace:
  assumes "123 \<notin> set t"
  shows "123 \<notin> set (candidateText t)"
proof -
  let ?c = "trim (stripFences t)"
  from assms set_stripFences [of t] set_trim [of "stripFences t"] have n: "123 \<notin> set ?c" by blast
  then have "candidateText t = repairBrackets (normalizeStrings ?c)"
    by (simp add: candidateText_def isolateObject_no_brace)
  moreover from n set_normalizeStrings [of ?c] have "123 \<notin> set (normalizeStrings ?c)" by auto
  with set_repairBrackets [of "normalizeStrings ?c"] have "123 \<notin> set (repairBrackets (normalizeStrings ?c))"
    by auto
  ultimately show ?thesis by simp
qed

text \<open>
  C3 (amended). When the stripped text has no match from a \<open>{\<close> to a later \<open>}\<close>, the
  pipeline does not stop: the whole trimmed text is normalised, repaired and parsed. When
  the reply has no \<open>{\<close> at all, recovery fails, with \<open>MalformedJson\<close> if the candidate
  does not parse and with the error of the validation if it parses (to a value that is
  not an object).
\<close>

theorem no_span_no_error_kind:
  assumes "isolateObject (trim (stripFences t)) = None"
  shows "candidateText t = repairBrackets (normalizeStrings (trim (stripFences t)))
    \<and> (123 \<notin> set t \<longrightarrow>
         recover t = (case JSON_parse (candidateText t) of
                        None \<Rightarrow> Inl (MalformedJson (take 200 t))
                      | Some v \<Rightarrow> if v = JNull then Inl TypeError else Inl MissingRequiredField))"
proof -
  have "recover t = (case JSON_parse (candidateText t) of
                        None \<Rightarrow> Inl (MalformedJson (take 200 t))
                      | Some v \<Rightarrow> if v = JNull then Inl TypeError else Inl MissingRequiredField)"
    if "123 \<notin> set t"
  proof (cases "JSON_parse (candidateText t)")
    case None
    then show ?thesis by (simp add: recover_def parseReply_def)
  next
    case (Some v)
    with JSON_parse_no_object [OF Some candidateText_no_brace [OF that]]
    show ?thesis by (simp add: recover_def parseReply_def validate_not_object)
  qed
  with assms show ?thesis by (simp add: candidateText_def)
qed

theorem no_span_no_error_kind_witness:
  \<open>isolateObject (trim (stripFences (js ''I cannot assess this page.''))) = None
   \<and> recover (js ''I cannot assess this page.'') = Inl (MalformedJson (js ''I cannot assess this page.''))
   \<and> isolateObject (trim (stripFences (js ''42''))) = None
   \<and> recover (js ''42'') = Inl MissingRequiredField\<close>
proof -
  have 1: \<open>isolateObject (trim (stripFences (js ''I cannot assess this page.''))) = None\<close> by code_simp
  have 2: \<open>123 \<notin> set (js ''I cannot assess this page.'')\<close> by simp
  have 3: \<open>JSON_parse (candidateText (js ''I cannot assess this page.'')) = None\<close> by code_simp
  have 4: \<open>isolateObject (trim (stripFences (js ''42''))) = None\<close> by code_simp
  have 5: \<open>123 \<notin> set (js ''42'')\<close> by simp
  have 6: \<open>JSON_parse (candidateText (js ''42'')) = Some (JNumber 42 0)\<close> by code_simp
  from no_span_no_error_kind [OF 1] no_span_no_error_kind [OF 4] 1 2 3 4 5 6
  show ?thesis by simp
qed

text \<open>
  The claim as stated fails: an object text that has lost its only closing brace has no
  match, is repaired, and is recovered.
\<close>

theorem truncated_object_is_recovered:
  \<open>isolateObject (trim (stripFences (js ''{"credibility_score": 40, "reasoning_summary": "Thin sourcing"''))) = None
   \<and> recover (js ''{"credibility_score": 40, "reasoning_summary": "Thin sourcing"'')
     = Inr (JObject [(js ''credibility_score'', JNumber 40 0),
         (js ''reasoning_summary'', JString (js ''Thin sourcing'')),
         (js ''confidence'', JNumber 75 0), (js ''political_leaning'', JString (js ''Neutral'')),
         (js ''corroboration_analysis'', JArray [])])\<close>
  by code_simp


section \<open>Bracket repair\<close>




















text \<open>
  Why the truncated text must have nothing behind its last closing brace: the isolation
  runs before the repair and cuts the text there.
\<close>

lemma text_behind_last_brace:
  \<open>candidateText (js ''{"a":[{"b":1},2'') = js ''{"a":[{"b":1}]}''\<close>
  by code_simp

end
